theory Spec2Isabelle
  imports Main "HOL-Library.Multiset"
begin

section \<open>Cycle-type expansion\<close>

text \<open>
  \<^verbatim>\<open>parse_cycle_type\<close>: position \<open>i\<close> (counted from 1) of the count vector holds the
  number of cycles of length \<open>i\<close>. Python's \<^verbatim>\<open>[length] * count\<close> is the empty list for a
  count that is zero or negative, which is what \<open>replicate (nat count)\<close> gives.
\<close>

definition parse_cycle_type :: "int list \<Rightarrow> int list" where
  "parse_cycle_type cycle_counts =
     concat (map (\<lambda>(len, count). replicate (nat count) (int len)) (enumerate 1 cycle_counts))"

section \<open>The permutation character: counting fixed tabloids\<close>

text \<open>
  \<^verbatim>\<open>backtrack(idx, remaining)\<close> of \<^verbatim>\<open>character_M\<close>, with the two variables it closes over
  (\<^verbatim>\<open>cycle_lengths\<close> and \<^verbatim>\<open>rows\<close>) as explicit parameters. The cache of \<^verbatim>\<open>lru_cache\<close> does
  not change the value and is left out. The source reads \<^verbatim>\<open>cycle_lengths[idx]\<close>, which
  raises for an index past the end; the entry point starts at index 0 and every call adds
  one, so an index past the end is never reached, and the model returns 0 there.
\<close>

function backtrack :: "int list \<Rightarrow> nat \<Rightarrow> nat \<Rightarrow> int list \<Rightarrow> int" where
  "backtrack cycle_lengths rows idx remaining =
     (if idx = length cycle_lengths then
        (if list_all (\<lambda>r. r = 0) remaining then 1 else 0)
      else if length cycle_lengths < idx then 0
      else
        sum_list (map (\<lambda>i.
          if remaining ! i \<ge> cycle_lengths ! idx
          then backtrack cycle_lengths rows (idx + 1)
                 (remaining[i := remaining ! i - cycle_lengths ! idx])
          else 0) [0..<rows]))"
  by pat_completeness auto
termination
  by (relation "measure (\<lambda>(cl, rows, idx, remaining). length cl - idx)") auto

declare backtrack.simps [simp del]

definition character_M :: "int list \<Rightarrow> int list \<Rightarrow> int" where
  "character_M partition' cycle_lengths =
     backtrack cycle_lengths (length partition') 0 partition'"

section \<open>Rim hooks of a Young diagram\<close>

type_synonym cell = "int \<times> int"

text \<open>
  The set of cells \<^verbatim>\<open>{(r, c) for r, length in enumerate(shape) for c in range(length)}\<close>,
  listed row by row. The source iterates over a Python set, whose order is an
  implementation detail; the model lists cells (and so corners and hooks) in row-major
  order. Everything stated below is about membership, counts and sums, none of which
  depends on that order.
\<close>

definition cells :: "int list \<Rightarrow> cell list" where
  "cells shape =
     concat (map (\<lambda>(r, len). map (\<lambda>c. (int r, int c)) [0..<nat len]) (enumerate 0 shape))"

definition corners :: "int list \<Rightarrow> cell list" where
  "corners shape =
     filter (\<lambda>(r, c). (r, c + 1) \<notin> set (cells shape) \<and> (r + 1, c) \<notin> set (cells shape))
       (cells shape)"

definition is_border :: "int list \<Rightarrow> cell \<Rightarrow> bool" where
  "is_border shape cell =
     (case cell of (r, c) \<Rightarrow>
        (r, c + 1) \<notin> set (cells shape) \<or> (r + 1, c) \<notin> set (cells shape))"

text \<open>
  The body of \<^verbatim>\<open>dfs\<close> for a path of full length: the rows of the residual cell set are
  counted, empty rows dropped, and the hook is recorded when the cell total fits.
\<close>

definition new_shape_of :: "int list \<Rightarrow> cell list \<Rightarrow> int list" where
  "new_shape_of shape path =
     (let new_cells = filter (\<lambda>x. x \<notin> set path) (cells shape)
      in filter (\<lambda>row_len. row_len > 0)
           (map (\<lambda>r. int (length (filter (\<lambda>(rr, _). rr = int r) new_cells)))
              [0..<length shape]))"

definition record_hook :: "int list \<Rightarrow> int \<Rightarrow> cell list \<Rightarrow> (int list \<times> int) list" where
  "record_hook shape hook_length path =
     (let new_shape = new_shape_of shape path in
      if sum_list new_shape = sum_list shape - hook_length
      then [(rev (sort new_shape), int (card (fst ` set path)) - 1)]
      else [])"

text \<open>
  \<^verbatim>\<open>dfs(path, visited)\<close>: the hooks it appends to \<^verbatim>\<open>hooks\<close>, in the order it appends them.
  It is only ever called with a non-empty path. The search ends because every call adds
  a cell of the diagram to \<open>visited\<close>.
\<close>

function dfs :: "int list \<Rightarrow> int \<Rightarrow> cell list \<Rightarrow> cell set \<Rightarrow> (int list \<times> int) list" where
  "dfs shape hook_length path visited =
     (if int (length path) = hook_length then record_hook shape hook_length path
      else
        concat (map (\<lambda>d.
          let nxt = (fst (last path) + fst d, snd (last path) + snd d) in
          if nxt \<in> set (cells shape) \<and> nxt \<notin> visited \<and> is_border shape nxt
          then dfs shape hook_length (path @ [nxt]) (visited \<union> {nxt})
          else []) [(-1, 0), (0, -1)]))"
  by pat_completeness auto
termination
proof (relation "measure (\<lambda>(shape, k, path, visited). card (set (cells shape) - visited))")
  show "wf (measure (\<lambda>(shape, k, path, visited). card (set (cells shape) - visited)))"
    by simp
next
  fix shape :: "int list" and hook_length :: int and path :: "cell list"
    and visited :: "cell set" and d :: cell and nxt :: cell
  assume "nxt \<in> set (cells shape) \<and> nxt \<notin> visited \<and> is_border shape nxt"
  then have "set (cells shape) - (visited \<union> {nxt}) \<subset> set (cells shape) - visited"
    by blast
  then have "card (set (cells shape) - (visited \<union> {nxt})) < card (set (cells shape) - visited)"
    by (intro psubset_card_mono) simp_all
  then show "((shape, hook_length, path @ [nxt], visited \<union> {nxt}),
              (shape, hook_length, path, visited))
             \<in> measure (\<lambda>(shape, k, path, visited). card (set (cells shape) - visited))"
    by simp
qed

declare dfs.simps [simp del]

definition rim_hooks :: "int list \<Rightarrow> int \<Rightarrow> (int list \<times> int) list" where
  "rim_hooks shape hook_length =
     concat (map (\<lambda>corner. dfs shape hook_length [corner] {corner}) (corners shape))"

text \<open>
  The same search once more, recording next to each hook the path it was computed from,
  that is the cells \<^verbatim>\<open>set(path)\<close> that the source takes away from \<^verbatim>\<open>cells\<close> at that
  point. \<open>dfs_trace_hooks\<close> below shows that forgetting the paths gives back \<open>dfs\<close>, and
  \<open>rim_hooks_trace_hooks\<close> that it gives back \<open>rim_hooks\<close>.
\<close>

definition record_trace :: "int list \<Rightarrow> int \<Rightarrow> cell list \<Rightarrow> (cell list \<times> int list \<times> int) list" where
  "record_trace shape hook_length path = map (Pair path) (record_hook shape hook_length path)"

function dfs_trace ::
  "int list \<Rightarrow> int \<Rightarrow> cell list \<Rightarrow> cell set \<Rightarrow> (cell list \<times> int list \<times> int) list" where
  "dfs_trace shape hook_length path visited =
     (if int (length path) = hook_length then record_trace shape hook_length path
      else
        concat (map (\<lambda>d.
          let nxt = (fst (last path) + fst d, snd (last path) + snd d) in
          if nxt \<in> set (cells shape) \<and> nxt \<notin> visited \<and> is_border shape nxt
          then dfs_trace shape hook_length (path @ [nxt]) (visited \<union> {nxt})
          else []) [(-1, 0), (0, -1)]))"
  by pat_completeness auto
termination
proof (relation "measure (\<lambda>(shape, k, path, visited). card (set (cells shape) - visited))")
  show "wf (measure (\<lambda>(shape, k, path, visited). card (set (cells shape) - visited)))"
    by simp
next
  fix shape :: "int list" and hook_length :: int and path :: "cell list"
    and visited :: "cell set" and d :: cell and nxt :: cell
  assume "nxt \<in> set (cells shape) \<and> nxt \<notin> visited \<and> is_border shape nxt"
  then have "set (cells shape) - (visited \<union> {nxt}) \<subset> set (cells shape) - visited"
    by blast
  then have "card (set (cells shape) - (visited \<union> {nxt})) < card (set (cells shape) - visited)"
    by (intro psubset_card_mono) simp_all
  then show "((shape, hook_length, path @ [nxt], visited \<union> {nxt}),
              (shape, hook_length, path, visited))
             \<in> measure (\<lambda>(shape, k, path, visited). card (set (cells shape) - visited))"
    by simp
qed

declare dfs_trace.simps [simp del]

definition rim_hooks_trace :: "int list \<Rightarrow> int \<Rightarrow> (cell list \<times> int list \<times> int) list" where
  "rim_hooks_trace shape hook_length =
     concat (map (\<lambda>corner. dfs_trace shape hook_length [corner] {corner}) (corners shape))"

section \<open>The irreducible character: the recursion of \<^verbatim>\<open>character_S\<close>\<close>

text \<open>
  \<^verbatim>\<open>mn(shape, cycles)\<close>, without its cache. A recorded height is the number of rows of a
  non-empty path minus one, so it is never negative and \<^verbatim>\<open>(-1) ** height\<close> is the
  integer power \<open>(- 1) ^ nat height\<close>.
\<close>

fun mn :: "int list \<Rightarrow> int list \<Rightarrow> int" where
  "mn shape [] = 1"
| "mn shape (c # cycles) =
     sum_list (map (\<lambda>(new_shape, height). (- 1) ^ nat height * mn new_shape cycles)
       (rim_hooks shape c))"

definition character_S :: "int list \<Rightarrow> int list \<Rightarrow> int" where
  "character_S partition' cycle_lengths = mn partition' cycle_lengths"

section \<open>The command line's check\<close>

text \<open>
  \<^verbatim>\<open>main\<close> from the point where both arguments have been split at the commas and
  converted with \<^verbatim>\<open>int\<close>: the model takes the two integer lists. Its result is the
  pair of values that the source prints, or the error that it raises.
\<close>

datatype error = ValueError

definition main :: "int list \<Rightarrow> int list \<Rightarrow> error + (int \<times> int)" where
  "main partition' cycle_counts =
     (if int (length cycle_counts) \<noteq> sum_list partition' then Inl ValueError
      else
        (let cycle_lengths = parse_cycle_type cycle_counts;
             chi_M = character_M partition' cycle_lengths;
             chi_S = character_S partition' cycle_lengths
         in Inr (chi_M, chi_S)))"

section \<open>Vocabulary of the statements\<close>

text \<open>
  A Young diagram shape as the specification has it: a non-increasing sequence of
  positive row lengths.
\<close>

definition young :: "int list \<Rightarrow> bool" where
  "young shape \<longleftrightarrow> sorted_wrt (\<ge>) shape \<and> list_all (\<lambda>x. 0 < x) shape"

text \<open>The cells that row \<open>r\<close> of length \<open>len\<close> contributes to \<open>cells\<close>.\<close>

definition row_cells :: "nat \<Rightarrow> int \<Rightarrow> cell list" where
  "row_cells r len = map (\<lambda>c. (int r, int c)) [0..<nat len]"

text \<open>
  The two kinds of path the search can build from a corner \<open>(r, c)\<close>: \<open>m\<close> cells
  straight up, or \<open>m\<close> cells straight to the left.
\<close>

definition vstrip :: "int \<Rightarrow> int \<Rightarrow> nat \<Rightarrow> cell list" where
  "vstrip r c m = map (\<lambda>i. (r - int i, c)) [0..<m]"

definition hstrip :: "int \<Rightarrow> int \<Rightarrow> nat \<Rightarrow> cell list" where
  "hstrip r c m = map (\<lambda>i. (r, c - int i)) [0..<m]"

text \<open>
  The row lengths left when such a strip is taken away: a vertical strip shortens each of
  the \<open>k\<close> rows ending at row \<open>r\<close> by one cell, a horizontal strip shortens row \<open>r\<close> by
  \<open>k\<close> cells. Emptied rows are kept here as rows of length 0.
\<close>

definition vshape :: "int list \<Rightarrow> int \<Rightarrow> nat \<Rightarrow> int list" where
  "vshape shape r k =
     map (\<lambda>j. if r - int k < int j \<and> int j \<le> r then shape ! j - 1 else shape ! j)
       [0..<length shape]"

definition hshape :: "int list \<Rightarrow> int \<Rightarrow> nat \<Rightarrow> int list" where
  "hshape shape r k = shape[nat r := shape ! nat r - int k]"

text \<open>
  The specification's notion of a removable rim hook, in its own words: a connected strip
  of border cells of the diagram whose removal leaves a valid (left-justified, top-justified)
  Young diagram. This definition follows the specification, not the code; it is what
  \<open>rim_hooks\<close> is compared with.
\<close>

definition adjacent :: "cell \<Rightarrow> cell \<Rightarrow> bool" where
  "adjacent x y \<longleftrightarrow> \<bar>fst x - fst y\<bar> + \<bar>snd x - snd y\<bar> = 1"

fun connected_strip :: "cell list \<Rightarrow> bool" where
  "connected_strip (x # y # zs) \<longleftrightarrow> adjacent x y \<and> connected_strip (y # zs)"
| "connected_strip _ \<longleftrightarrow> True"

definition young_diagram :: "cell list \<Rightarrow> bool" where
  "young_diagram cs \<longleftrightarrow>
     list_all (\<lambda>(r, c). 0 \<le> r \<and> 0 \<le> c \<and> (c = 0 \<or> (r, c - 1) \<in> set cs)
                 \<and> (r = 0 \<or> (r - 1, c) \<in> set cs)) cs"

definition spec_removable_rim_hook :: "int list \<Rightarrow> cell list \<Rightarrow> bool" where
  "spec_removable_rim_hook shape path \<longleftrightarrow>
     distinct path \<and> list_all (\<lambda>x. x \<in> set (cells shape)) path \<and>
     list_all (is_border shape) path \<and> connected_strip path \<and>
     young_diagram (filter (\<lambda>x. x \<notin> set path) (cells shape))"

text \<open>
  The row above the cell \<open>x\<close> ends in the same column as the row of \<open>x\<close> does.
\<close>

definition row_above_same :: "int list \<Rightarrow> cell \<Rightarrow> bool" where
  "row_above_same shape x \<longleftrightarrow>
     (fst x - 1, snd x) \<in> set (cells shape) \<and> (fst x - 1, snd x + 1) \<notin> set (cells shape)"

text \<open>
  \<open>backtrack\<close> as a recursion over the cycles still to be placed, instead of an index into
  the list; \<open>backtrack_place\<close> below shows that the two agree.
\<close>

fun place :: "nat \<Rightarrow> int list \<Rightarrow> int list \<Rightarrow> int" where
  "place rows remaining [] = (if list_all (\<lambda>r. r = 0) remaining then 1 else 0)"
| "place rows remaining (c # cs) =
     sum_list (map (\<lambda>i. if c \<le> remaining ! i
        then place rows (remaining[i := remaining ! i - c]) cs else 0) [0..<rows])"

section \<open>Properties of \<^verbatim>\<open>character_M\<close>\<close>

lemma backtrack_nonneg: "0 \<le> backtrack cycle_lengths rows idx remaining"
proof (induction cycle_lengths rows idx remaining rule: backtrack.induct)
  case (1 cycle_lengths rows idx remaining)
  show ?case
  proof (cases "idx = length cycle_lengths \<or> length cycle_lengths < idx")
    case True
    then show ?thesis by (auto simp: backtrack.simps [of cycle_lengths rows idx remaining])
  next
    case False
    then have a: "idx \<noteq> length cycle_lengths" and b: "\<not> length cycle_lengths < idx" by auto
    have "0 \<le> sum_list (map (\<lambda>i.
          if remaining ! i \<ge> cycle_lengths ! idx
          then backtrack cycle_lengths rows (idx + 1)
                 (remaining[i := remaining ! i - cycle_lengths ! idx])
          else 0) [0..<rows])"
      by (rule sum_list_nonneg) (use 1 a b in auto)
    with a b show ?thesis by (simp add: backtrack.simps [of cycle_lengths rows idx remaining])
  qed
qed

text \<open>
  C8. For every partition and every list of cycle lengths, \<open>character_M\<close> returns a
  nonnegative integer. The recursion is total: \<open>backtrack\<close> is defined with a termination
  proof (the index grows towards the length of the cycle list), and no branch of it raises.
\<close>

theorem character_M_nonneg: "0 \<le> character_M partition' cycle_lengths"
  unfolding character_M_def by (rule backtrack_nonneg)

section \<open>The base cases on an empty cycle list\<close>

text \<open>
  C10. With an empty list of cycle lengths, \<open>character_S\<close> returns 1 for every shape, also
  a non-empty one, and \<open>character_M\<close> returns 0 for every non-empty partition (rows
  positive): neither function rejects the mismatch between the cell count and the cycle
  total.
\<close>

theorem empty_cycles_base_case:
  "character_S shape [] = 1 \<and>
   (partition' \<noteq> [] \<and> (\<forall>r\<in>set partition'. 0 < r) \<longrightarrow> character_M partition' [] = 0)"
proof -
  have "character_M partition' [] = 0" if "partition' \<noteq> []" "\<forall>r\<in>set partition'. 0 < r"
  proof -
    from that obtain r where "r \<in> set partition'" "r \<noteq> 0"
      by (cases partition') auto
    then have "\<not> list_all (\<lambda>r. r = 0) partition'" by (auto simp: list_all_iff)
    then show ?thesis by (simp add: character_M_def backtrack.simps [of "[]"])
  qed
  then show ?thesis by (simp add: character_S_def)
qed

theorem empty_cycles_base_case_witness:
  "character_S [2, 1] [] = 1 \<and> character_M [2, 1] [] = 0"
  using empty_cycles_base_case [of "[2, 1]" "[2, 1]"] by simp

section \<open>What \<^verbatim>\<open>main\<close> validates\<close>

text \<open>
  C3, as the code has it. \<open>main\<close> compares the number of entries of the cycle-count
  vector with the sum of the partition: when they differ it raises and returns no pair;
  when they agree it returns the pair of characters of the expanded cycle type, whatever
  the expanded lengths sum to.
\<close>

theorem main_validation:
  "(int (length cycle_counts) \<noteq> sum_list partition' \<longrightarrow>
      main partition' cycle_counts = Inl ValueError) \<and>
   (int (length cycle_counts) = sum_list partition' \<longrightarrow>
      main partition' cycle_counts =
        Inr (character_M partition' (parse_cycle_type cycle_counts),
             character_S partition' (parse_cycle_type cycle_counts)))"
  by (simp add: main_def Let_def)

theorem main_validation_witness:
  "main [2, 1] [0, 1] = Inl ValueError \<and>
   main [2, 1] [3, 0, 0] =
     Inr (character_M [2, 1] (parse_cycle_type [3, 0, 0]),
          character_S [2, 1] (parse_cycle_type [3, 0, 0]))"
  using main_validation [of "[0, 1]" "[2, 1]"] main_validation [of "[3, 0, 0]" "[2, 1]"]
  by simp

text \<open>
  C3 as stated fails: the partition \<open>[2, 1]\<close> has 3 cells, the count vector \<open>[0, 0, 0]\<close>
  has 3 entries and expands to no cycle at all (total 0), and \<open>main\<close> returns a pair.
\<close>

theorem main_totals_counterexample:
  "sum_list [2, 1] \<noteq> sum_list (parse_cycle_type [0, 0, 0]) \<and>
   main [2, 1] [0, 0, 0] = Inr (0, 1)"
  by code_simp

section \<open>Values on concrete inputs\<close>

text \<open>
  C2. For the partition \<open>[2, 1]\<close> and the count vector \<open>[0, 0, 1]\<close> (one 3-cycle),
  \<open>character_M\<close> returns 0, and \<open>character_S\<close> returns 0 as well: no hook of length 3
  is found in the diagram, although the whole diagram is one.
\<close>

theorem three_cycle_on_21:
  "character_M [2, 1] (parse_cycle_type [0, 0, 1]) = 0 \<and>
   character_S [2, 1] (parse_cycle_type [0, 0, 1]) = 0"
  by code_simp

text \<open>
  C5. The value of \<open>character_S\<close> depends on the order of the cycle lengths: on the
  partition \<open>[3, 1]\<close> the lists \<open>[1, 3]\<close> and \<open>[3, 1]\<close> give different values.
\<close>

theorem character_S_order_dependent:
  "character_S [3, 1] [1, 3] = 1 \<and> character_S [3, 1] [3, 1] = 0"
  by code_simp

section \<open>The cells of a diagram\<close>

lemma in_row_cells: "(a, b) \<in> set (row_cells r len) \<longleftrightarrow> a = int r \<and> 0 \<le> b \<and> b < len"
proof
  assume "(a, b) \<in> set (row_cells r len)"
  then show "a = int r \<and> 0 \<le> b \<and> b < len" by (auto simp: row_cells_def)
next
  assume h: "a = int r \<and> 0 \<le> b \<and> b < len"
  then have "nat b < nat len" "int (nat b) = b" by auto
  then have "(int r, int (nat b)) \<in> (\<lambda>c. (int r, int c)) ` {0..<nat len}"
    by (intro imageI) simp
  with h \<open>int (nat b) = b\<close> show "(a, b) \<in> set (row_cells r len)"
    by (simp add: row_cells_def)
qed

lemma in_enum_cells:
  "(a, b) \<in> set (concat (map (\<lambda>(r, len). row_cells r len) (enumerate n shape))) \<longleftrightarrow>
     int n \<le> a \<and> nat a - n < length shape \<and> 0 \<le> b \<and> b < shape ! (nat a - n)"
proof (induction shape arbitrary: n)
  case Nil
  then show ?case by simp
next
  case (Cons x xs)
  let ?f = "\<lambda>(r, len). row_cells r len"
  have "(a, b) \<in> set (concat (map ?f (enumerate n (x # xs)))) \<longleftrightarrow>
        (a, b) \<in> set (row_cells n x) \<or> (a, b) \<in> set (concat (map ?f (enumerate (Suc n) xs)))"
    by simp
  also have "\<dots> \<longleftrightarrow> (a = int n \<and> 0 \<le> b \<and> b < x) \<or>
        (int (Suc n) \<le> a \<and> nat a - Suc n < length xs \<and> 0 \<le> b \<and> b < xs ! (nat a - Suc n))"
    by (simp only: in_row_cells Cons.IH)
  also have "\<dots> \<longleftrightarrow> int n \<le> a \<and> nat a - n < length (x # xs) \<and> 0 \<le> b \<and> b < (x # xs) ! (nat a - n)"
  proof (cases "a = int n")
    case True
    then show ?thesis by simp
  next
    case False
    show ?thesis
    proof (cases "int (Suc n) \<le> a")
      case True
      then have "nat a - n = Suc (nat a - Suc n)" by linarith
      with True False show ?thesis by simp
    next
      case b: False
      with False show ?thesis by simp
    qed
  qed
  finally show ?case .
qed

lemma cells_enum: "cells shape = concat (map (\<lambda>(r, len). row_cells r len) (enumerate 0 shape))"
  by (simp add: cells_def row_cells_def)

lemma in_cells:
  "(a, b) \<in> set (cells shape) \<longleftrightarrow> 0 \<le> a \<and> nat a < length shape \<and> 0 \<le> b \<and> b < shape ! nat a"
  unfolding cells_enum in_enum_cells by simp

lemma distinct_row_cells: "distinct (row_cells r len)"
  by (simp add: row_cells_def distinct_map inj_on_def)

lemma distinct_enum_cells:
  "distinct (concat (map (\<lambda>(r, len). row_cells r len) (enumerate n shape)))"
proof (induction shape arbitrary: n)
  case Nil
  then show ?case by simp
next
  case (Cons x xs)
  have "set (row_cells n x) \<inter> set (concat (map (\<lambda>(r, len). row_cells r len) (enumerate (Suc n) xs))) = {}"
  proof (rule ccontr)
    assume "\<not> ?thesis"
    then obtain y where y: "y \<in> set (row_cells n x)"
      "y \<in> set (concat (map (\<lambda>(r, len). row_cells r len) (enumerate (Suc n) xs)))"
      by blast
    obtain a b where "y = (a, b)" by (cases y)
    with y have 1: "(a, b) \<in> set (row_cells n x)"
      and 2: "(a, b) \<in> set (concat (map (\<lambda>(r, len). row_cells r len) (enumerate (Suc n) xs)))"
      by simp_all
    from 1 have "a = int n" by (simp add: in_row_cells)
    moreover from 2 have "int (Suc n) \<le> a" unfolding in_enum_cells by simp
    ultimately show False by simp
  qed
  moreover have "concat (map (\<lambda>(r, len). row_cells r len) (enumerate n (x # xs)))
     = row_cells n x @ concat (map (\<lambda>(r, len). row_cells r len) (enumerate (Suc n) xs))"
    by simp
  ultimately show ?case using Cons.IH [of "Suc n"] distinct_row_cells [of n x]
    by (simp only: distinct_append simp_thms)
qed

lemma distinct_cells: "distinct (cells shape)"
  unfolding cells_enum by (rule distinct_enum_cells)

lemma length_enum_cells:
  "\<forall>x\<in>set shape. 0 \<le> x \<Longrightarrow>
   int (length (concat (map (\<lambda>(r, len). row_cells r len) (enumerate n shape)))) = sum_list shape"
  by (induction shape arbitrary: n) (auto simp: row_cells_def)

lemma card_cells: "\<forall>x\<in>set shape. 0 \<le> x \<Longrightarrow> int (card (set (cells shape))) = sum_list shape"
proof -
  assume a: "\<forall>x\<in>set shape. 0 \<le> x"
  have "card (set (cells shape)) = length (cells shape)"
    by (rule distinct_card [OF distinct_cells])
  also have "int \<dots> = sum_list shape"
    unfolding cells_enum by (rule length_enum_cells [OF a])
  finally show ?thesis .
qed

lemma row_of_cells:
  assumes "r < length shape"
  shows "{x \<in> set (cells shape). fst x = int r} = (\<lambda>c. (int r, int c)) ` {0..<nat (shape ! r)}"
proof (rule set_eqI)
  fix x :: cell
  obtain a b where x: "x = (a, b)" by (cases x)
  show "x \<in> {x \<in> set (cells shape). fst x = int r} \<longleftrightarrow> x \<in> (\<lambda>c. (int r, int c)) ` {0..<nat (shape ! r)}"
  proof
    assume "x \<in> {x \<in> set (cells shape). fst x = int r}"
    then have "a = int r" "0 \<le> b" "b < shape ! r" using x by (auto simp: in_cells)
    then have "nat b \<in> {0..<nat (shape ! r)}" "x = (int r, int (nat b))" using x by auto
    then show "x \<in> (\<lambda>c. (int r, int c)) ` {0..<nat (shape ! r)}" by blast
  next
    assume "x \<in> (\<lambda>c. (int r, int c)) ` {0..<nat (shape ! r)}"
    then show "x \<in> {x \<in> set (cells shape). fst x = int r}"
      using x assms by (auto simp: in_cells)
  qed
qed

lemma card_row_of_cells:
  assumes "r < length shape" "0 \<le> shape ! r"
  shows "int (card {x \<in> set (cells shape). fst x = int r}) = shape ! r"
proof -
  have "inj_on (\<lambda>c. (int r, int c)) {0..<nat (shape ! r)}" by (simp add: inj_on_def)
  then have "card ((\<lambda>c. (int r, int c)) ` {0..<nat (shape ! r)}) = nat (shape ! r)"
    by (simp add: card_image)
  with assms show ?thesis by (simp add: row_of_cells)
qed

lemma in_corners:
  "(r, c) \<in> set (corners shape) \<longleftrightarrow>
     (r, c) \<in> set (cells shape) \<and> (r, c + 1) \<notin> set (cells shape) \<and> (r + 1, c) \<notin> set (cells shape)"
  by (auto simp: corners_def)

lemma distinct_corners: "distinct (corners shape)"
  by (simp add: corners_def distinct_cells)

section \<open>Recording a hook whose residual is a diagram\<close>

lemma new_shape_of_residual:
  assumes len: "length shape' = length shape"
    and nonneg: "\<forall>x\<in>set shape'. 0 \<le> x"
    and res: "set (cells shape) - set path = set (cells shape')"
  shows "new_shape_of shape path = filter (\<lambda>x. 0 < x) shape'"
proof -
  have count: "int (length (filter (\<lambda>(rr, _). rr = int r) (filter (\<lambda>x. x \<notin> set path) (cells shape)))) = shape' ! r"
    if r: "r < length shape" for r
  proof -
    have d: "distinct (filter (\<lambda>x. x \<notin> set path) (cells shape))"
      by (simp add: distinct_cells)
    have "length (filter (\<lambda>(rr, _). rr = int r) (filter (\<lambda>x. x \<notin> set path) (cells shape)))
        = card ({x. (\<lambda>(rr, _). rr = int r) x} \<inter> set (filter (\<lambda>x. x \<notin> set path) (cells shape)))"
      by (rule distinct_length_filter [OF d])
    also have "{x. (\<lambda>(rr, _). rr = int r) x} \<inter> set (filter (\<lambda>x. x \<notin> set path) (cells shape))
        = {x \<in> set (cells shape) - set path. fst x = int r}"
      by auto
    also have "\<dots> = {x \<in> set (cells shape'). fst x = int r}" by (simp only: res)
    finally show ?thesis
      using card_row_of_cells [of r shape'] r len nonneg by simp
  qed
  have "map (\<lambda>r. int (length (filter (\<lambda>(rr, _). rr = int r) (filter (\<lambda>x. x \<notin> set path) (cells shape)))))
          [0..<length shape] = map (\<lambda>r. shape' ! r) [0..<length shape]"
    by (rule map_cong) (use count in auto)
  also have "\<dots> = shape'" using len map_nth [of shape'] by simp
  finally show ?thesis by (simp add: new_shape_of_def)
qed

lemma rev_sort_desc:
  fixes xs :: "int list"
  assumes "sorted_wrt (\<ge>) xs"
  shows "rev (sort xs) = xs"
proof -
  have "sorted (rev xs)" using assms by (simp add: sorted_wrt_rev)
  moreover have "mset (rev xs) = mset xs" by simp
  ultimately have "sort xs = rev xs" by (rule properties_for_sort [rotated])
  then show ?thesis by simp
qed

lemma sum_list_filter_pos:
  fixes xs :: "int list"
  shows "\<forall>x\<in>set xs. 0 \<le> x \<Longrightarrow> sum_list (filter (\<lambda>x. 0 < x) xs) = sum_list xs"
  by (induction xs) auto

lemma residual_total:
  assumes nonneg: "\<forall>x\<in>set shape. 0 \<le> x"
    and nonneg': "\<forall>x\<in>set shape'. 0 \<le> x"
    and dist: "distinct path"
    and sub: "set path \<subseteq> set (cells shape)"
    and res: "set (cells shape) - set path = set (cells shape')"
  shows "sum_list (filter (\<lambda>x. 0 < x) shape') = sum_list shape - int (length path)"
proof -
  have "card (set (cells shape) - set path) = card (set (cells shape)) - card (set path)"
    by (rule card_Diff_subset) (use sub in auto)
  moreover have "card (set path) \<le> card (set (cells shape))"
    by (rule card_mono) (use sub in auto)
  moreover have "card (set path) = length path" by (rule distinct_card [OF dist])
  ultimately have "int (card (set (cells shape'))) = int (card (set (cells shape))) - int (length path)"
    using res by simp
  then have "sum_list shape' = sum_list shape - int (length path)"
    by (simp add: card_cells [OF nonneg] card_cells [OF nonneg'])
  then show ?thesis by (simp add: sum_list_filter_pos [OF nonneg'])
qed

lemma record_hook_residual:
  assumes nonneg: "\<forall>x\<in>set shape. 0 \<le> x"
    and len: "length shape' = length shape"
    and nonneg': "\<forall>x\<in>set shape'. 0 \<le> x"
    and desc: "sorted_wrt (\<ge>) shape'"
    and dist: "distinct path"
    and sub: "set path \<subseteq> set (cells shape)"
    and k: "int (length path) = k"
    and res: "set (cells shape) - set path = set (cells shape')"
  shows "record_hook shape k path =
           [(filter (\<lambda>x. 0 < x) shape', int (card (fst ` set path)) - 1)]"
proof -
  have ns: "new_shape_of shape path = filter (\<lambda>x. 0 < x) shape'"
    by (rule new_shape_of_residual [OF len nonneg' res])
  have total: "sum_list (filter (\<lambda>x. 0 < x) shape') = sum_list shape - k"
    using residual_total [OF nonneg nonneg' dist sub res] k by simp
  have "sorted_wrt (\<ge>) (filter (\<lambda>x. 0 < x) shape')"
    by (rule sorted_wrt_filter [OF desc])
  then have "rev (sort (filter (\<lambda>x. 0 < x) shape')) = filter (\<lambda>x. 0 < x) shape'"
    by (rule rev_sort_desc)
  with total show ?thesis by (simp add: record_hook_def ns)
qed

lemma length_record_hook: "length (record_hook shape k path) \<le> 1"
  by (simp add: record_hook_def Let_def)

section \<open>Straight strips\<close>

lemma vstrip_Suc: "vstrip r c (Suc m) = vstrip r c m @ [(r - int m, c)]"
  by (simp add: vstrip_def)

lemma hstrip_Suc: "hstrip r c (Suc m) = hstrip r c m @ [(r, c - int m)]"
  by (simp add: hstrip_def)

lemma strip_one: "vstrip r c (Suc 0) = [(r, c)]" "hstrip r c (Suc 0) = [(r, c)]"
  by (simp_all add: vstrip_def hstrip_def)

lemma in_vstrip: "(a, b) \<in> set (vstrip r c m) \<longleftrightarrow> b = c \<and> r - int m < a \<and> a \<le> r"
proof (induction m)
  case 0
  then show ?case by (simp add: vstrip_def)
next
  case (Suc m)
  then show ?case by (auto simp: vstrip_Suc)
qed

lemma in_hstrip: "(a, b) \<in> set (hstrip r c m) \<longleftrightarrow> a = r \<and> c - int m < b \<and> b \<le> c"
proof (induction m)
  case 0
  then show ?case by (simp add: hstrip_def)
next
  case (Suc m)
  then show ?case by (auto simp: hstrip_Suc)
qed

lemma distinct_vstrip: "distinct (vstrip r c m)"
  by (simp add: vstrip_def distinct_map inj_on_def)

lemma distinct_hstrip: "distinct (hstrip r c m)"
  by (simp add: hstrip_def distinct_map inj_on_def)

lemma length_vstrip: "length (vstrip r c m) = m"
  by (simp add: vstrip_def)

lemma length_hstrip: "length (hstrip r c m) = m"
  by (simp add: hstrip_def)

lemma last_vstrip: "last (vstrip r c (Suc m)) = (r - int m, c)"
  by (simp add: vstrip_Suc)

lemma last_hstrip: "last (hstrip r c (Suc m)) = (r, c - int m)"
  by (simp add: hstrip_Suc)

lemma rows_vstrip: "card (fst ` set (vstrip r c m)) = m"
proof -
  have "fst ` set (vstrip r c m) = (\<lambda>i. r - int i) ` {0..<m}"
    by (auto simp: vstrip_def image_iff)
  moreover have "inj_on (\<lambda>i. r - int i) {0..<m}" by (simp add: inj_on_def)
  ultimately show ?thesis by (simp add: card_image)
qed

lemma rows_hstrip: "0 < m \<Longrightarrow> card (fst ` set (hstrip r c m)) = 1"
proof -
  assume "0 < m"
  then have "fst ` set (hstrip r c m) = {r}"
    by (auto simp: hstrip_def image_iff)
  then show ?thesis by simp
qed

section \<open>What the search finds from a corner\<close>

text \<open>
  After a step up the step to the left is never a border cell, and in a Young diagram
  after a step to the left the step up is never one: from a corner the search can only
  run straight up or straight to the left.
\<close>

lemma dfs_done:
  "int (length path) = k \<Longrightarrow> dfs shape k path visited = record_hook shape k path"
  by (simp add: dfs.simps [of shape k path visited])

lemma dfs_step:
  assumes "int (length path) \<noteq> k" and "last path = (r, c)"
  shows "dfs shape k path visited =
     (if (r - 1, c) \<in> set (cells shape) \<and> (r - 1, c) \<notin> visited \<and> is_border shape (r - 1, c)
      then dfs shape k (path @ [(r - 1, c)]) (visited \<union> {(r - 1, c)}) else []) @
     (if (r, c - 1) \<in> set (cells shape) \<and> (r, c - 1) \<notin> visited \<and> is_border shape (r, c - 1)
      then dfs shape k (path @ [(r, c - 1)]) (visited \<union> {(r, c - 1)}) else [])"
  using assms by (simp add: dfs.simps [of shape k path visited] Let_def)

lemma ball_from:
  "m < k \<Longrightarrow> (\<forall>i\<in>{m..<k}. P i) \<longleftrightarrow> P m \<and> (\<forall>i\<in>{Suc m..<k}. P i)"
  by (metis atLeastLessThan_iff Suc_leD Suc_le_eq le_eq_less_or_eq order_refl)

lemma left_blocked:
  assumes "(r + 1, c) \<in> set (cells shape)" "(r, c) \<in> set (cells shape)"
  shows "\<not> ((r, c - 1) \<in> set (cells shape) \<and> is_border shape (r, c - 1))"
  using assms by (auto simp: is_border_def in_cells)

lemma young_nth_mono:
  assumes "young shape" "i \<le> j" "j < length shape"
  shows "shape ! j \<le> shape ! i"
proof (cases "i = j")
  case True
  then show ?thesis by simp
next
  case False
  with assms have "i < j" by simp
  with assms show ?thesis
    using sorted_wrt_nth_less [of "(\<ge>)" shape i j] by (simp add: young_def)
qed

lemma up_blocked:
  assumes y: "young shape" and "(r, c + 1) \<in> set (cells shape)" "(r, c) \<in> set (cells shape)"
  shows "\<not> ((r - 1, c) \<in> set (cells shape) \<and> is_border shape (r - 1, c))"
proof
  assume a: "(r - 1, c) \<in> set (cells shape) \<and> is_border shape (r - 1, c)"
  then have r: "0 \<le> r - 1" "nat r < length shape" using assms by (auto simp: in_cells)
  then have "nat (r - 1) \<le> nat r" by simp
  from young_nth_mono [OF y this r(2)] have "shape ! nat r \<le> shape ! nat (r - 1)" .
  moreover from assms have "c + 1 < shape ! nat r" by (simp add: in_cells)
  ultimately have "(r - 1, c + 1) \<in> set (cells shape)"
    using a by (auto simp: in_cells)
  with a assms show False by (auto simp: is_border_def)
qed

lemma record_trace_hooks: "map snd (record_trace shape k path) = record_hook shape k path"
  by (simp add: record_trace_def comp_def)

lemma in_record_trace:
  "(p, x) \<in> set (record_trace shape k path) \<longleftrightarrow> p = path \<and> x \<in> set (record_hook shape k path)"
  by (auto simp: record_trace_def)

lemma trace_done:
  "int (length path) = k \<Longrightarrow> dfs_trace shape k path visited = record_trace shape k path"
  by (simp add: dfs_trace.simps [of shape k path visited])

lemma trace_step:
  assumes "int (length path) \<noteq> k" and "last path = (r, c)"
  shows "dfs_trace shape k path visited =
     (if (r - 1, c) \<in> set (cells shape) \<and> (r - 1, c) \<notin> visited \<and> is_border shape (r - 1, c)
      then dfs_trace shape k (path @ [(r - 1, c)]) (visited \<union> {(r - 1, c)}) else []) @
     (if (r, c - 1) \<in> set (cells shape) \<and> (r, c - 1) \<notin> visited \<and> is_border shape (r, c - 1)
      then dfs_trace shape k (path @ [(r, c - 1)]) (visited \<union> {(r, c - 1)}) else [])"
  using assms by (simp add: dfs_trace.simps [of shape k path visited] Let_def)

lemma dfs_trace_hooks: "map snd (dfs_trace shape k path visited) = dfs shape k path visited"
proof (induction shape k path visited rule: dfs.induct)
  case (1 shape k path visited)
  show ?case
  proof (cases "int (length path) = k")
    case True
    then show ?thesis by (simp add: trace_done dfs_done record_trace_hooks)
  next
    case False
    obtain r c where rc: "last path = (r, c)" by (cases "last path")
    have up: "map snd (dfs_trace shape k (path @ [(r - 1, c)]) (visited \<union> {(r - 1, c)})) =
          dfs shape k (path @ [(r - 1, c)]) (visited \<union> {(r - 1, c)})"
      if "(r - 1, c) \<in> set (cells shape) \<and> (r - 1, c) \<notin> visited \<and> is_border shape (r - 1, c)"
      using "1.IH" [OF False, of "(- 1, 0)" "(r - 1, c)"] that rc by simp
    have left: "map snd (dfs_trace shape k (path @ [(r, c - 1)]) (visited \<union> {(r, c - 1)})) =
          dfs shape k (path @ [(r, c - 1)]) (visited \<union> {(r, c - 1)})"
      if "(r, c - 1) \<in> set (cells shape) \<and> (r, c - 1) \<notin> visited \<and> is_border shape (r, c - 1)"
      using "1.IH" [OF False, of "(0, - 1)" "(r, c - 1)"] that rc by simp
    show ?thesis
      unfolding trace_step [OF False rc] dfs_step [OF False rc]
      using up left by (simp del: Un_insert_right)
  qed
qed

lemma rim_hooks_trace_hooks: "map snd (rim_hooks_trace shape k) = rim_hooks shape k"
  by (simp add: rim_hooks_trace_def rim_hooks_def map_concat comp_def dfs_trace_hooks)

lemma trace_vstrip:
  assumes "Suc m \<le> k" "1 \<le> m"
    and "\<forall>i\<le>m. (r - int i, c) \<in> set (cells shape)"
    and "visited = set (vstrip r c (Suc m))"
  shows "dfs_trace shape (int k) (vstrip r c (Suc m)) visited =
     (if \<forall>i\<in>{Suc m..<k}. (r - int i, c) \<in> set (cells shape)
                           \<and> (r - int i, c + 1) \<notin> set (cells shape)
      then record_trace shape (int k) (vstrip r c k) else [])"
  using assms
proof (induction "k - Suc m" arbitrary: m visited)
  case 0
  then have "k = Suc m" by simp
  then show ?case by (simp add: trace_done length_vstrip)
next
  case (Suc d)
  then have lt: "Suc m < k" by simp
  let ?up = "(r - int m - 1, c)"
  have inm: "(r - int m, c) \<in> set (cells shape)" using Suc.prems by simp
  have "m - 1 \<le> m" by simp
  with Suc.prems(3) have "(r - int (m - 1), c) \<in> set (cells shape)" by blast
  moreover have "r - int (m - 1) = r - int m + 1" using Suc.prems(2) by (simp add: of_nat_diff)
  ultimately have prev: "(r - int m + 1, c) \<in> set (cells shape)" by (simp only:)
  have nl: "\<not> ((r - int m, c - 1) \<in> set (cells shape) \<and> is_border shape (r - int m, c - 1))"
    by (rule left_blocked [OF prev inm])
  have nv: "?up \<notin> visited" using Suc.prems by (simp add: in_vstrip)
  have bord: "is_border shape ?up \<longleftrightarrow> (r - int m - 1, c + 1) \<notin> set (cells shape)"
    using inm by (simp add: is_border_def)
  have len: "int (length (vstrip r c (Suc m))) \<noteq> int k" using lt by (simp add: length_vstrip)
  have raw: "dfs_trace shape (int k) (vstrip r c (Suc m)) visited =
     (if ?up \<in> set (cells shape) \<and> ?up \<notin> visited \<and> is_border shape ?up
      then dfs_trace shape (int k) (vstrip r c (Suc m) @ [?up]) (visited \<union> {?up}) else []) @
     (if (r - int m, c - 1) \<in> set (cells shape) \<and> (r - int m, c - 1) \<notin> visited
           \<and> is_border shape (r - int m, c - 1)
      then dfs_trace shape (int k) (vstrip r c (Suc m) @ [(r - int m, c - 1)])
             (visited \<union> {(r - int m, c - 1)}) else [])"
    by (rule trace_step [OF len last_vstrip])
  have leftnil: "(if (r - int m, c - 1) \<in> set (cells shape) \<and> (r - int m, c - 1) \<notin> visited
           \<and> is_border shape (r - int m, c - 1) then X else []) = []" for X :: "(cell list \<times> int list \<times> int) list"
    using nl by auto
  have upc: "(?up \<in> set (cells shape) \<and> ?up \<notin> visited \<and> is_border shape ?up) \<longleftrightarrow>
     (?up \<in> set (cells shape) \<and> (r - int m - 1, c + 1) \<notin> set (cells shape))"
    using nv bord by blast
  have vs: "vstrip r c (Suc m) @ [?up] = vstrip r c (Suc (Suc m))"
    by (simp add: vstrip_Suc [of r c "Suc m"] algebra_simps)
  have step: "dfs_trace shape (int k) (vstrip r c (Suc m)) visited =
     (if ?up \<in> set (cells shape) \<and> (r - int m - 1, c + 1) \<notin> set (cells shape)
      then dfs_trace shape (int k) (vstrip r c (Suc (Suc m))) (visited \<union> {?up}) else [])"
    by (simp only: raw leftnil upc vs append_Nil2)
  have up_eq: "(r - int (Suc m), c) = ?up" "(r - int (Suc m), c + 1) = (r - int m - 1, c + 1)"
    by simp_all
  show ?case
  proof (cases "?up \<in> set (cells shape) \<and> (r - int m - 1, c + 1) \<notin> set (cells shape)")
    case True
    have "\<forall>i\<le>Suc m. (r - int i, c) \<in> set (cells shape)"
      using Suc.prems(3) True up_eq by (metis le_Suc_eq)
    moreover have "visited \<union> {?up} = set (vstrip r c (Suc (Suc m)))"
      using Suc.prems(4) by (simp add: vstrip_Suc [of r c "Suc m"] algebra_simps)
    moreover have "d = k - Suc (Suc m)" using Suc.hyps by simp
    ultimately have "dfs_trace shape (int k) (vstrip r c (Suc (Suc m))) (visited \<union> {?up}) =
       (if \<forall>i\<in>{Suc (Suc m)..<k}. (r - int i, c) \<in> set (cells shape)
                           \<and> (r - int i, c + 1) \<notin> set (cells shape)
        then record_trace shape (int k) (vstrip r c k) else [])"
      using Suc.hyps(1) [of "Suc m" "visited \<union> {?up}"] lt by simp
    with True show ?thesis
      unfolding step ball_from [OF lt] up_eq by simp
  next
    case False
    have lhs: "dfs_trace shape (int k) (vstrip r c (Suc m)) visited = []"
      by (simp only: step False if_False)
    have "\<not> (\<forall>i\<in>{Suc m..<k}. (r - int i, c) \<in> set (cells shape)
                           \<and> (r - int i, c + 1) \<notin> set (cells shape))"
      unfolding ball_from [OF lt] up_eq using False by blast
    then show ?thesis by (simp only: lhs if_False)
  qed
qed

lemma trace_hstrip:
  assumes "Suc m \<le> k" "1 \<le> m" and y: "young shape"
    and "\<forall>i\<le>m. (r, c - int i) \<in> set (cells shape)"
    and "visited = set (hstrip r c (Suc m))"
  shows "dfs_trace shape (int k) (hstrip r c (Suc m)) visited =
     (if \<forall>i\<in>{Suc m..<k}. (r, c - int i) \<in> set (cells shape)
                           \<and> (r + 1, c - int i) \<notin> set (cells shape)
      then record_trace shape (int k) (hstrip r c k) else [])"
  using assms
proof (induction "k - Suc m" arbitrary: m visited)
  case 0
  then have "k = Suc m" by simp
  then show ?case by (simp add: trace_done length_hstrip)
next
  case (Suc d)
  then have lt: "Suc m < k" by simp
  let ?left = "(r, c - int m - 1)"
  have inm: "(r, c - int m) \<in> set (cells shape)" using Suc.prems by simp
  have "m - 1 \<le> m" by simp
  with Suc.prems(4) have "(r, c - int (m - 1)) \<in> set (cells shape)" by blast
  moreover have "c - int (m - 1) = c - int m + 1" using Suc.prems(2) by (simp add: of_nat_diff)
  ultimately have prev: "(r, c - int m + 1) \<in> set (cells shape)" by (simp only:)
  have nu: "\<not> ((r - 1, c - int m) \<in> set (cells shape) \<and> is_border shape (r - 1, c - int m))"
    by (rule up_blocked [OF y prev inm])
  have nv: "?left \<notin> visited" using Suc.prems by (simp add: in_hstrip)
  have bord: "is_border shape ?left \<longleftrightarrow> (r + 1, c - int m - 1) \<notin> set (cells shape)"
    using inm by (simp add: is_border_def)
  have len: "int (length (hstrip r c (Suc m))) \<noteq> int k" using lt by (simp add: length_hstrip)
  have raw: "dfs_trace shape (int k) (hstrip r c (Suc m)) visited =
     (if (r - 1, c - int m) \<in> set (cells shape) \<and> (r - 1, c - int m) \<notin> visited
           \<and> is_border shape (r - 1, c - int m)
      then dfs_trace shape (int k) (hstrip r c (Suc m) @ [(r - 1, c - int m)])
             (visited \<union> {(r - 1, c - int m)}) else []) @
     (if ?left \<in> set (cells shape) \<and> ?left \<notin> visited \<and> is_border shape ?left
      then dfs_trace shape (int k) (hstrip r c (Suc m) @ [?left]) (visited \<union> {?left}) else [])"
    by (rule trace_step [OF len last_hstrip])
  have upnil: "(if (r - 1, c - int m) \<in> set (cells shape) \<and> (r - 1, c - int m) \<notin> visited
           \<and> is_border shape (r - 1, c - int m) then X else []) = []" for X :: "(cell list \<times> int list \<times> int) list"
    using nu by auto
  have leftc: "(?left \<in> set (cells shape) \<and> ?left \<notin> visited \<and> is_border shape ?left) \<longleftrightarrow>
     (?left \<in> set (cells shape) \<and> (r + 1, c - int m - 1) \<notin> set (cells shape))"
    using nv bord by blast
  have hs: "hstrip r c (Suc m) @ [?left] = hstrip r c (Suc (Suc m))"
    by (simp add: hstrip_Suc [of r c "Suc m"] algebra_simps)
  have step: "dfs_trace shape (int k) (hstrip r c (Suc m)) visited =
     (if ?left \<in> set (cells shape) \<and> (r + 1, c - int m - 1) \<notin> set (cells shape)
      then dfs_trace shape (int k) (hstrip r c (Suc (Suc m))) (visited \<union> {?left}) else [])"
    by (simp only: raw upnil leftc hs append_Nil)
  have left_eq: "(r, c - int (Suc m)) = ?left" "(r + 1, c - int (Suc m)) = (r + 1, c - int m - 1)"
    by simp_all
  show ?case
  proof (cases "?left \<in> set (cells shape) \<and> (r + 1, c - int m - 1) \<notin> set (cells shape)")
    case True
    have "\<forall>i\<le>Suc m. (r, c - int i) \<in> set (cells shape)"
      using Suc.prems(4) True left_eq by (metis le_Suc_eq)
    moreover have "visited \<union> {?left} = set (hstrip r c (Suc (Suc m)))"
      using Suc.prems(5) by (simp add: hstrip_Suc [of r c "Suc m"] algebra_simps)
    moreover have "d = k - Suc (Suc m)" using Suc.hyps by simp
    ultimately have "dfs_trace shape (int k) (hstrip r c (Suc (Suc m))) (visited \<union> {?left}) =
       (if \<forall>i\<in>{Suc (Suc m)..<k}. (r, c - int i) \<in> set (cells shape)
                           \<and> (r + 1, c - int i) \<notin> set (cells shape)
        then record_trace shape (int k) (hstrip r c k) else [])"
      using Suc.hyps(1) [of "Suc m" "visited \<union> {?left}"] lt y by simp
    with True show ?thesis
      unfolding step ball_from [OF lt] left_eq by simp
  next
    case False
    have lhs: "dfs_trace shape (int k) (hstrip r c (Suc m)) visited = []"
      by (simp only: step False if_False)
    have "\<not> (\<forall>i\<in>{Suc m..<k}. (r, c - int i) \<in> set (cells shape)
                           \<and> (r + 1, c - int i) \<notin> set (cells shape))"
      unfolding ball_from [OF lt] left_eq using False by blast
    then show ?thesis by (simp only: lhs if_False)
  qed
qed

lemma trace_corner:
  assumes y: "young shape" and corner: "(r, c) \<in> set (corners shape)" and k: "2 \<le> k"
  shows "dfs_trace shape (int k) [(r, c)] {(r, c)} =
     (if \<forall>i\<in>{1..<k}. (r - int i, c) \<in> set (cells shape)
                           \<and> (r - int i, c + 1) \<notin> set (cells shape)
      then record_trace shape (int k) (vstrip r c k) else []) @
     (if \<forall>i\<in>{1..<k}. (r, c - int i) \<in> set (cells shape)
                           \<and> (r + 1, c - int i) \<notin> set (cells shape)
      then record_trace shape (int k) (hstrip r c k) else [])"
proof -
  have inc: "(r, c) \<in> set (cells shape)" using corner by (simp add: in_corners)
  have len: "int (length [(r, c)]) \<noteq> int k" using k by simp
  have lt: "1 < k" using k by simp
  have raw: "dfs_trace shape (int k) [(r, c)] {(r, c)} =
     (if (r - 1, c) \<in> set (cells shape) \<and> (r - 1, c) \<notin> {(r, c)} \<and> is_border shape (r - 1, c)
      then dfs_trace shape (int k) ([(r, c)] @ [(r - 1, c)]) ({(r, c)} \<union> {(r - 1, c)}) else []) @
     (if (r, c - 1) \<in> set (cells shape) \<and> (r, c - 1) \<notin> {(r, c)} \<and> is_border shape (r, c - 1)
      then dfs_trace shape (int k) ([(r, c)] @ [(r, c - 1)]) ({(r, c)} \<union> {(r, c - 1)}) else [])"
    by (rule trace_step [OF len]) simp
  have v2: "[(r, c)] @ [(r - 1, c)] = vstrip r c (Suc 1)"
    and h2: "[(r, c)] @ [(r, c - 1)] = hstrip r c (Suc 1)"
    by (simp_all add: vstrip_def hstrip_def)
  have vset: "{(r, c)} \<union> {(r - 1, c)} = set (vstrip r c (Suc 1))"
    and hset: "{(r, c)} \<union> {(r, c - 1)} = set (hstrip r c (Suc 1))"
    by (auto simp: vstrip_def hstrip_def)
  have upc: "((r - 1, c) \<in> set (cells shape) \<and> (r - 1, c) \<notin> {(r, c)} \<and> is_border shape (r - 1, c))
      \<longleftrightarrow> ((r - int 1, c) \<in> set (cells shape) \<and> (r - int 1, c + 1) \<notin> set (cells shape))"
    using inc by (auto simp: is_border_def)
  have leftc: "((r, c - 1) \<in> set (cells shape) \<and> (r, c - 1) \<notin> {(r, c)} \<and> is_border shape (r, c - 1))
      \<longleftrightarrow> ((r, c - int 1) \<in> set (cells shape) \<and> (r + 1, c - int 1) \<notin> set (cells shape))"
    using inc by (auto simp: is_border_def)
  have V: "(if (r - int 1, c) \<in> set (cells shape) \<and> (r - int 1, c + 1) \<notin> set (cells shape)
      then dfs_trace shape (int k) (vstrip r c (Suc 1)) (set (vstrip r c (Suc 1))) else []) =
     (if \<forall>i\<in>{1..<k}. (r - int i, c) \<in> set (cells shape)
                           \<and> (r - int i, c + 1) \<notin> set (cells shape)
      then record_trace shape (int k) (vstrip r c k) else [])"
  proof (cases "(r - int 1, c) \<in> set (cells shape) \<and> (r - int 1, c + 1) \<notin> set (cells shape)")
    case True
    have "\<forall>i\<le>1. (r - int i, c) \<in> set (cells shape)"
      using True inc by (auto simp: le_Suc_eq)
    from trace_vstrip [OF _ _ this refl, of k] k True show ?thesis
      unfolding ball_from [OF lt] by simp
  next
    case False
    have "\<not> (\<forall>i\<in>{1..<k}. (r - int i, c) \<in> set (cells shape)
                           \<and> (r - int i, c + 1) \<notin> set (cells shape))"
      unfolding ball_from [OF lt] using False by blast
    then show ?thesis by (simp only: False if_False)
  qed
  have H: "(if (r, c - int 1) \<in> set (cells shape) \<and> (r + 1, c - int 1) \<notin> set (cells shape)
      then dfs_trace shape (int k) (hstrip r c (Suc 1)) (set (hstrip r c (Suc 1))) else []) =
     (if \<forall>i\<in>{1..<k}. (r, c - int i) \<in> set (cells shape)
                           \<and> (r + 1, c - int i) \<notin> set (cells shape)
      then record_trace shape (int k) (hstrip r c k) else [])"
  proof (cases "(r, c - int 1) \<in> set (cells shape) \<and> (r + 1, c - int 1) \<notin> set (cells shape)")
    case True
    have "\<forall>i\<le>1. (r, c - int i) \<in> set (cells shape)"
      using True inc by (auto simp: le_Suc_eq)
    from trace_hstrip [OF _ _ y this refl, of k] k True show ?thesis
      unfolding ball_from [OF lt] by simp
  next
    case False
    have "\<not> (\<forall>i\<in>{1..<k}. (r, c - int i) \<in> set (cells shape)
                           \<and> (r + 1, c - int i) \<notin> set (cells shape))"
      unfolding ball_from [OF lt] using False by blast
    then show ?thesis by (simp only: False if_False)
  qed
  show ?thesis by (simp only: raw v2 h2 vset hset upc leftc V H)
qed

lemma dfs_corner:
  assumes y: "young shape" and corner: "(r, c) \<in> set (corners shape)" and k: "2 \<le> k"
  shows "dfs shape (int k) [(r, c)] {(r, c)} =
     (if \<forall>i\<in>{1..<k}. (r - int i, c) \<in> set (cells shape)
                           \<and> (r - int i, c + 1) \<notin> set (cells shape)
      then record_hook shape (int k) (vstrip r c k) else []) @
     (if \<forall>i\<in>{1..<k}. (r, c - int i) \<in> set (cells shape)
                           \<and> (r + 1, c - int i) \<notin> set (cells shape)
      then record_hook shape (int k) (hstrip r c k) else [])"
proof -
  have "dfs shape (int k) [(r, c)] {(r, c)} = map snd (dfs_trace shape (int k) [(r, c)] {(r, c)})"
    by (rule dfs_trace_hooks [symmetric])
  also have "\<dots> =
     (if \<forall>i\<in>{1..<k}. (r - int i, c) \<in> set (cells shape)
                           \<and> (r - int i, c + 1) \<notin> set (cells shape)
      then map snd (record_trace shape (int k) (vstrip r c k)) else []) @
     (if \<forall>i\<in>{1..<k}. (r, c - int i) \<in> set (cells shape)
                           \<and> (r + 1, c - int i) \<notin> set (cells shape)
      then map snd (record_trace shape (int k) (hstrip r c k)) else [])"
    unfolding trace_corner [OF y corner k] map_append
    by (simp only: if_distrib [of "map snd"] list.map)
  finally show ?thesis by (simp only: record_trace_hooks)
qed

section \<open>The residual of a straight strip\<close>

lemma young_nonneg: "young shape \<Longrightarrow> \<forall>x\<in>set shape. 0 \<le> x"
  by (auto simp: young_def list_all_iff)

lemma young_pos_nth: "young shape \<Longrightarrow> j < length shape \<Longrightarrow> 0 < shape ! j"
  by (auto simp: young_def list_all_iff)

lemma corner_row:
  assumes "(r, c) \<in> set (corners shape)"
  shows "0 \<le> r \<and> nat r < length shape \<and> 0 \<le> c \<and> shape ! nat r = c + 1"
  using assms by (auto simp: in_corners in_cells)

lemma below_corner:
  assumes y: "young shape" and corner: "(r, c) \<in> set (corners shape)"
    and j: "r < int j" "j < length shape"
  shows "shape ! j \<le> c"
proof -
  from corner have r: "0 \<le> r" "0 \<le> c" "(r + 1, c) \<notin> set (cells shape)"
    by (auto simp: in_corners in_cells)
  from j r have n: "nat (r + 1) \<le> j" "nat (r + 1) < length shape" by linarith+
  from r n have "shape ! nat (r + 1) \<le> c" by (auto simp: in_cells)
  moreover have "shape ! j \<le> shape ! nat (r + 1)" by (rule young_nth_mono [OF y n(1) j(2)])
  ultimately show ?thesis by simp
qed

lemma vstrip_rows:
  assumes corner: "(r, c) \<in> set (corners shape)"
    and run: "\<forall>i\<in>{1..<k}. (r - int i, c) \<in> set (cells shape)
                           \<and> (r - int i, c + 1) \<notin> set (cells shape)"
    and j: "r - int k < a" "a \<le> r"
  shows "0 \<le> a \<and> nat a < length shape \<and> shape ! nat a = c + 1"
proof (cases "a = r")
  case True
  then show ?thesis using corner_row [OF corner] by simp
next
  case False
  define i where "i = nat (r - a)"
  from False j have i: "i \<in> {1..<k}" "r - int i = a" by (auto simp: i_def)
  from run i(1) have "(r - int i, c) \<in> set (cells shape) \<and> (r - int i, c + 1) \<notin> set (cells shape)"
    by blast
  then show ?thesis unfolding i(2) by (auto simp: in_cells)
qed

lemma vshape_nth:
  "j < length shape \<Longrightarrow>
   vshape shape r k ! j = (if r - int k < int j \<and> int j \<le> r then shape ! j - 1 else shape ! j)"
  by (simp add: vshape_def)

lemma length_vshape: "length (vshape shape r k) = length shape"
  by (simp add: vshape_def)

lemma vstrip_residual:
  assumes y: "young shape" and corner: "(r, c) \<in> set (corners shape)"
    and run: "\<forall>i\<in>{1..<k}. (r - int i, c) \<in> set (cells shape)
                           \<and> (r - int i, c + 1) \<notin> set (cells shape)"
  shows "set (vstrip r c k) \<subseteq> set (cells shape)"
    and "set (cells shape) - set (vstrip r c k) = set (cells (vshape shape r k))"
    and "\<forall>x\<in>set (vshape shape r k). 0 \<le> x"
    and "sorted_wrt (\<ge>) (vshape shape r k)"
proof -
  note rows = vstrip_rows [OF corner run]
  from corner_row [OF corner] have c0: "0 \<le> c" by simp
  show "set (vstrip r c k) \<subseteq> set (cells shape)"
  proof
    fix x assume x: "x \<in> set (vstrip r c k)"
    obtain a b where ab: "x = (a, b)" by (cases x)
    with x have "b = c" "r - int k < a" "a \<le> r" by (simp_all add: in_vstrip)
    with rows [of a] c0 show "x \<in> set (cells shape)" by (simp add: ab in_cells)
  qed
  show "set (cells shape) - set (vstrip r c k) = set (cells (vshape shape r k))"
  proof (rule set_eqI)
    fix x :: cell
    obtain a b where ab: "x = (a, b)" by (cases x)
    show "x \<in> set (cells shape) - set (vstrip r c k) \<longleftrightarrow> x \<in> set (cells (vshape shape r k))"
    proof (cases "0 \<le> a \<and> nat a < length shape")
      case False
      then show ?thesis by (auto simp: ab in_cells length_vshape)
    next
      case inr: True
      show ?thesis
      proof (cases "r - int k < a \<and> a \<le> r")
        case True
        with rows [of a] have "shape ! nat a = c + 1" by simp
        with True inr show ?thesis
          by (auto simp: ab in_cells in_vstrip length_vshape vshape_nth)
      next
        case False
        with inr show ?thesis
          by (auto simp: ab in_cells in_vstrip length_vshape vshape_nth)
      qed
    qed
  qed
  show "\<forall>x\<in>set (vshape shape r k). 0 \<le> x"
  proof
    fix x assume "x \<in> set (vshape shape r k)"
    then obtain j where j: "j < length shape" "x = vshape shape r k ! j"
      by (auto simp: in_set_conv_nth length_vshape)
    show "0 \<le> x"
    proof (cases "r - int k < int j \<and> int j \<le> r")
      case True
      with rows [of "int j"] c0 j show ?thesis by (simp add: vshape_nth)
    next
      case False
      with young_pos_nth [OF y j(1)] j show ?thesis by (simp add: vshape_nth)
    qed
  qed
  show "sorted_wrt (\<ge>) (vshape shape r k)"
    unfolding sorted_wrt_iff_nth_less length_vshape
  proof (intro allI impI)
    fix i j assume ij: "i < j" "j < length shape"
    then have i: "i < length shape" by simp
    have mono: "shape ! j \<le> shape ! i" by (rule young_nth_mono [OF y _ ij(2)]) (use ij in simp)
    consider (both) "r - int k < int i" "int j \<le> r"
      | (upper) "r - int k < int i" "int i \<le> r" "r < int j"
      | (lower) "int i \<le> r - int k" "r - int k < int j" "int j \<le> r"
      | (none1) "r < int i" | (none2) "int j \<le> r - int k"
      | (none3) "int i \<le> r - int k" "r < int j"
      using ij by linarith
    then show "vshape shape r k ! j \<le> vshape shape r k ! i"
    proof cases
      case both
      with ij rows [of "int i"] rows [of "int j"] show ?thesis
        by (simp add: vshape_nth i)
    next
      case upper
      with rows [of "int i"] below_corner [OF y corner upper(3) ij(2)] ij show ?thesis
        by (simp add: vshape_nth i)
    next
      case lower
      with mono ij show ?thesis by (simp add: vshape_nth i)
    next
      case none1
      with mono ij show ?thesis by (simp add: vshape_nth i)
    next
      case none2
      with mono ij show ?thesis by (simp add: vshape_nth i)
    next
      case none3
      with mono ij show ?thesis by (simp add: vshape_nth i)
    qed
  qed
qed

lemma length_hshape: "length (hshape shape r k) = length shape"
  by (simp add: hshape_def)

lemma hshape_nth:
  "j < length shape \<Longrightarrow> 0 \<le> r \<Longrightarrow>
   hshape shape r k ! j = (if int j = r then shape ! j - int k else shape ! j)"
  by (auto simp: hshape_def nth_list_update)

lemma hstrip_cols:
  assumes corner: "(r, c) \<in> set (corners shape)"
    and run: "\<forall>i\<in>{1..<k}. (r, c - int i) \<in> set (cells shape)
                           \<and> (r + 1, c - int i) \<notin> set (cells shape)"
    and b: "c - int k < b" "b \<le> c"
  shows "0 \<le> b \<and> ((r + 1, b) \<notin> set (cells shape))"
proof (cases "b = c")
  case True
  then show ?thesis using corner by (auto simp: in_corners in_cells)
next
  case False
  define i where "i = nat (c - b)"
  from False b have i: "i \<in> {1..<k}" "c - int i = b" by (auto simp: i_def)
  from run i(1) have "(r, c - int i) \<in> set (cells shape) \<and> (r + 1, c - int i) \<notin> set (cells shape)"
    by blast
  then show ?thesis unfolding i(2) by (auto simp: in_cells)
qed

lemma hstrip_residual:
  assumes y: "young shape" and corner: "(r, c) \<in> set (corners shape)" and k: "1 \<le> k"
    and run: "\<forall>i\<in>{1..<k}. (r, c - int i) \<in> set (cells shape)
                           \<and> (r + 1, c - int i) \<notin> set (cells shape)"
  shows "set (hstrip r c k) \<subseteq> set (cells shape)"
    and "set (cells shape) - set (hstrip r c k) = set (cells (hshape shape r k))"
    and "\<forall>x\<in>set (hshape shape r k). 0 \<le> x"
    and "sorted_wrt (\<ge>) (hshape shape r k)"
proof -
  note cols = hstrip_cols [OF corner run]
  from corner_row [OF corner]
  have r0: "0 \<le> r" and rl: "nat r < length shape" and c0: "0 \<le> c"
    and row: "shape ! nat r = c + 1" by simp_all
  from k cols [of "c - int k + 1"] have low: "0 \<le> c - int k + 1"
    and below: "(r + 1, c - int k + 1) \<notin> set (cells shape)" by simp_all
  show "set (hstrip r c k) \<subseteq> set (cells shape)"
  proof
    fix x assume x: "x \<in> set (hstrip r c k)"
    obtain a b where ab: "x = (a, b)" by (cases x)
    with x have "a = r" "c - int k < b" "b \<le> c" by (simp_all add: in_hstrip)
    with low r0 rl row show "x \<in> set (cells shape)" by (simp add: ab in_cells)
  qed
  show "set (cells shape) - set (hstrip r c k) = set (cells (hshape shape r k))"
  proof (rule set_eqI)
    fix x :: cell
    obtain a b where ab: "x = (a, b)" by (cases x)
    show "x \<in> set (cells shape) - set (hstrip r c k) \<longleftrightarrow> x \<in> set (cells (hshape shape r k))"
    proof (cases "0 \<le> a \<and> nat a < length shape")
      case False
      then show ?thesis by (auto simp: ab in_cells length_hshape)
    next
      case inr: True
      show ?thesis
      proof (cases "a = r")
        case True
        with inr row r0 show ?thesis
          by (auto simp: ab in_cells in_hstrip length_hshape hshape_nth)
      next
        case False
        with inr r0 show ?thesis
          by (auto simp: ab in_cells in_hstrip length_hshape hshape_nth)
      qed
    qed
  qed
  show "\<forall>x\<in>set (hshape shape r k). 0 \<le> x"
  proof
    fix x assume "x \<in> set (hshape shape r k)"
    then obtain j where j: "j < length shape" "x = hshape shape r k ! j"
      by (auto simp: in_set_conv_nth length_hshape)
    show "0 \<le> x"
    proof (cases "int j = r")
      case True
      then have "nat r = j" by simp
      with True low row j r0 show ?thesis by (simp add: hshape_nth)
    next
      case False
      with young_pos_nth [OF y j(1)] j r0 show ?thesis by (simp add: hshape_nth)
    qed
  qed
  show "sorted_wrt (\<ge>) (hshape shape r k)"
    unfolding sorted_wrt_iff_nth_less length_hshape
  proof (intro allI impI)
    fix i j assume ij: "i < j" "j < length shape"
    then have i: "i < length shape" by simp
    have mono: "shape ! j \<le> shape ! i" by (rule young_nth_mono [OF y _ ij(2)]) (use ij in simp)
    consider (atj) "int j = r" | (ati) "int i = r" | (none) "int i \<noteq> r" "int j \<noteq> r" by blast
    then show "hshape shape r k ! j \<le> hshape shape r k ! i"
    proof cases
      case atj
      with ij have "int i \<noteq> r" by simp
      with atj mono ij r0 show ?thesis by (simp add: hshape_nth i)
    next
      case ati
      then have ni: "nat r = i" by simp
      from ati ij have jr: "int j \<noteq> r" "nat (r + 1) \<le> j" "nat (r + 1) < length shape" by linarith+
      from below low r0 jr have "shape ! nat (r + 1) \<le> c - int k + 1" by (auto simp: in_cells)
      moreover have "shape ! j \<le> shape ! nat (r + 1)" by (rule young_nth_mono [OF y jr(2) ij(2)])
      ultimately show ?thesis using ati jr(1) row ni ij r0 by (simp add: hshape_nth i)
    next
      case none
      with mono ij r0 show ?thesis by (simp add: hshape_nth i)
    qed
  qed
qed

lemma record_hook_vstrip:
  assumes y: "young shape" and corner: "(r, c) \<in> set (corners shape)"
    and run: "\<forall>i\<in>{1..<k}. (r - int i, c) \<in> set (cells shape)
                           \<and> (r - int i, c + 1) \<notin> set (cells shape)"
  shows "record_hook shape (int k) (vstrip r c k) =
           [(filter (\<lambda>x. 0 < x) (vshape shape r k), int k - 1)]"
  using record_hook_residual [OF young_nonneg [OF y] length_vshape
      vstrip_residual(3) [OF y corner run] vstrip_residual(4) [OF y corner run]
      distinct_vstrip vstrip_residual(1) [OF y corner run] _ vstrip_residual(2) [OF y corner run],
      of "int k"]
  by (simp add: length_vstrip rows_vstrip)

lemma record_hook_hstrip:
  assumes y: "young shape" and corner: "(r, c) \<in> set (corners shape)" and k: "1 \<le> k"
    and run: "\<forall>i\<in>{1..<k}. (r, c - int i) \<in> set (cells shape)
                           \<and> (r + 1, c - int i) \<notin> set (cells shape)"
  shows "record_hook shape (int k) (hstrip r c k) =
           [(filter (\<lambda>x. 0 < x) (hshape shape r k), 0)]"
  using record_hook_residual [OF young_nonneg [OF y] length_hshape
      hstrip_residual(3) [OF y corner k run] hstrip_residual(4) [OF y corner k run]
      distinct_hstrip hstrip_residual(1) [OF y corner k run] _ hstrip_residual(2) [OF y corner k run],
      of "int k"] k
  by (simp add: length_hstrip rows_hstrip)

lemma record_hook_corner:
  assumes y: "young shape" and corner: "(r, c) \<in> set (corners shape)"
  shows "record_hook shape 1 [(r, c)] = [(filter (\<lambda>x. 0 < x) (hshape shape r 1), 0)]"
  using record_hook_hstrip [OF y corner, of 1] by (simp add: strip_one)

lemma dfs_corner_cases:
  assumes y: "young shape" and corner: "(r, c) \<in> set (corners shape)" and k: "1 \<le> k"
    and x: "x \<in> set (dfs shape (int k) [(r, c)] {(r, c)})"
  shows "((\<forall>i\<in>{1..<k}. (r - int i, c) \<in> set (cells shape)
                           \<and> (r - int i, c + 1) \<notin> set (cells shape)) \<and>
          x = (filter (\<lambda>x. 0 < x) (vshape shape r k), int k - 1)) \<or>
         ((\<forall>i\<in>{1..<k}. (r, c - int i) \<in> set (cells shape)
                           \<and> (r + 1, c - int i) \<notin> set (cells shape)) \<and>
          x = (filter (\<lambda>x. 0 < x) (hshape shape r k), 0))"
proof (cases "k = 1")
  case True
  with x record_hook_corner [OF y corner] show ?thesis by (simp add: dfs_done)
next
  case False
  with k have k2: "2 \<le> k" by simp
  from x consider
    (v) "\<forall>i\<in>{1..<k}. (r - int i, c) \<in> set (cells shape)
                           \<and> (r - int i, c + 1) \<notin> set (cells shape)"
        "x \<in> set (record_hook shape (int k) (vstrip r c k))"
  | (h) "\<forall>i\<in>{1..<k}. (r, c - int i) \<in> set (cells shape)
                           \<and> (r + 1, c - int i) \<notin> set (cells shape)"
        "x \<in> set (record_hook shape (int k) (hstrip r c k))"
    unfolding dfs_corner [OF y corner k2] by (auto split: if_splits)
  then show ?thesis
  proof cases
    case v
    with record_hook_vstrip [OF y corner v(1)] show ?thesis by simp
  next
    case h
    with record_hook_hstrip [OF y corner k h(1)] show ?thesis by simp
  qed
qed

lemma young_filter_pos:
  assumes "sorted_wrt (\<ge>) shape'"
  shows "young (filter (\<lambda>x. 0 < x) shape')"
  using sorted_wrt_filter [OF assms, of "\<lambda>x. 0 < x"] by (simp add: young_def list_all_iff)

lemma length_concat_eq:
  assumes "\<forall>x\<in>set xs. length (f x) = 1"
  shows "length (concat (map f xs)) = length xs"
  using assms by (induction xs) simp_all

lemma young_22: "young [2, 2]"
  by (simp add: young_def)

section \<open>Every recorded hook is a removable strip\<close>

lemma trace_corner_cases:
  assumes y: "young shape" and corner: "(r, c) \<in> set (corners shape)" and k: "1 \<le> k"
    and x: "(p, x) \<in> set (dfs_trace shape (int k) [(r, c)] {(r, c)})"
  shows "((\<forall>i\<in>{1..<k}. (r - int i, c) \<in> set (cells shape)
                           \<and> (r - int i, c + 1) \<notin> set (cells shape)) \<and>
          p = vstrip r c k \<and> x = (filter (\<lambda>x. 0 < x) (vshape shape r k), int k - 1)) \<or>
         ((\<forall>i\<in>{1..<k}. (r, c - int i) \<in> set (cells shape)
                           \<and> (r + 1, c - int i) \<notin> set (cells shape)) \<and>
          p = hstrip r c k \<and> x = (filter (\<lambda>x. 0 < x) (hshape shape r k), 0))"
proof (cases "k = 1")
  case True
  with x have "p = [(r, c)]" "x \<in> set (record_hook shape 1 [(r, c)])"
    by (simp_all add: trace_done in_record_trace)
  with record_hook_corner [OF y corner] True show ?thesis by (simp add: strip_one)
next
  case False
  with k have k2: "2 \<le> k" by simp
  from x consider
    (v) "\<forall>i\<in>{1..<k}. (r - int i, c) \<in> set (cells shape)
                           \<and> (r - int i, c + 1) \<notin> set (cells shape)"
        "(p, x) \<in> set (record_trace shape (int k) (vstrip r c k))"
  | (h) "\<forall>i\<in>{1..<k}. (r, c - int i) \<in> set (cells shape)
                           \<and> (r + 1, c - int i) \<notin> set (cells shape)"
        "(p, x) \<in> set (record_trace shape (int k) (hstrip r c k))"
    unfolding trace_corner [OF y corner k2] by (auto split: if_splits)
  then show ?thesis
  proof cases
    case v
    with record_hook_vstrip [OF y corner v(1)] show ?thesis by (simp add: in_record_trace)
  next
    case h
    with record_hook_hstrip [OF y corner k h(1)] show ?thesis by (simp add: in_record_trace)
  qed
qed

text \<open>
  C9. For a Young diagram shape and a positive hook length, take any hook that
  \<open>rim_hooks\<close> returns together with the path the search removed to compute it (an entry
  \<open>(path, ns, h)\<close> of \<open>rim_hooks_trace\<close>, whose second components are exactly the
  list \<open>rim_hooks\<close> returns). Then \<open>(ns, h)\<close> is what \<open>record_hook\<close> computes from that
  path; the path has \<open>k\<close> distinct cells of the diagram; the cells left over when that
  path is removed are exactly the cells of a diagram \<open>shape'\<close> with non-increasing,
  nonnegative row lengths (a left-justified Young diagram, emptied rows kept as 0); \<open>ns\<close>
  is \<open>shape'\<close> with the empty rows dropped, so it is a non-increasing sequence of positive
  integers, and it sums to \<open>sum_list shape - k\<close>; and \<open>h\<close> is the number of distinct rows
  of the removed path minus one.
\<close>

theorem rim_hooks_sound:
  assumes "young shape" and "0 < k"
  shows "map snd (rim_hooks_trace shape k) = rim_hooks shape k \<and>
    (\<forall>(path, ns, h) \<in> set (rim_hooks_trace shape k).
       (ns, h) \<in> set (record_hook shape k path) \<and>
       distinct path \<and> set path \<subseteq> set (cells shape) \<and> int (length path) = k \<and>
       young ns \<and> sum_list ns = sum_list shape - k \<and>
       (\<exists>shape'. length shape' = length shape \<and> sorted_wrt (\<ge>) shape' \<and>
          (\<forall>x\<in>set shape'. 0 \<le> x) \<and>
          set (cells shape) - set path = set (cells shape') \<and>
          ns = filter (\<lambda>x. 0 < x) shape') \<and>
       h = int (card (fst ` set path)) - 1)"
proof -
  define k' where "k' = nat k"
  with assms have k: "k = int k'" "1 \<le> k'" by simp_all
  note y = assms(1)
  have each: "(ns, h) \<in> set (record_hook shape k path) \<and>
       distinct path \<and> set path \<subseteq> set (cells shape) \<and> int (length path) = k \<and>
       young ns \<and> sum_list ns = sum_list shape - k \<and>
       (\<exists>shape'. length shape' = length shape \<and> sorted_wrt (\<ge>) shape' \<and>
          (\<forall>x\<in>set shape'. 0 \<le> x) \<and>
          set (cells shape) - set path = set (cells shape') \<and>
          ns = filter (\<lambda>x. 0 < x) shape') \<and>
       h = int (card (fst ` set path)) - 1"
    if mem: "(path, ns, h) \<in> set (rim_hooks_trace shape k)" for path ns h
  proof -
    from mem obtain corner where corner: "corner \<in> set (corners shape)"
      and x: "(path, ns, h) \<in> set (dfs_trace shape k [corner] {corner})"
      by (auto simp: rim_hooks_trace_def)
    obtain r c where rc: "corner = (r, c)" by (cases corner)
    from corner rc have cor: "(r, c) \<in> set (corners shape)" by simp
    from x rc k have x': "(path, ns, h) \<in> set (dfs_trace shape (int k') [(r, c)] {(r, c)})"
      by simp
    from trace_corner_cases [OF y cor k(2) x'] show ?thesis
    proof
      assume v: "(\<forall>i\<in>{1..<k'}. (r - int i, c) \<in> set (cells shape)
                           \<and> (r - int i, c + 1) \<notin> set (cells shape)) \<and>
          path = vstrip r c k' \<and> (ns, h) = (filter (\<lambda>x. 0 < x) (vshape shape r k'), int k' - 1)"
      then have run: "\<forall>i\<in>{1..<k'}. (r - int i, c) \<in> set (cells shape)
                           \<and> (r - int i, c + 1) \<notin> set (cells shape)" by blast
      from v have p: "path = vstrip r c k'"
        and ns: "ns = filter (\<lambda>x. 0 < x) (vshape shape r k')" and h: "h = int k' - 1"
        by simp_all
      note res = vstrip_residual [OF y cor run]
      have total: "sum_list ns = sum_list shape - k"
        using residual_total [OF young_nonneg [OF y] res(3) distinct_vstrip res(1) res(2)] ns k
        by (simp add: length_vstrip)
      have rec: "(ns, h) \<in> set (record_hook shape k path)"
        using record_hook_vstrip [OF y cor run] ns h p k by simp
      have ex: "\<exists>shape'. length shape' = length shape \<and> sorted_wrt (\<ge>) shape' \<and>
          (\<forall>x\<in>set shape'. 0 \<le> x) \<and>
          set (cells shape) - set path = set (cells shape') \<and>
          ns = filter (\<lambda>x. 0 < x) shape'"
        using res(2) res(3) res(4) ns p length_vshape [of shape r k'] by blast
      have "young ns" using ns young_filter_pos [OF res(4)] by simp
      moreover have "distinct path" "set path \<subseteq> set (cells shape)" "int (length path) = k"
        "h = int (card (fst ` set path)) - 1"
        using p res(1) k h by (simp_all add: distinct_vstrip length_vstrip rows_vstrip)
      ultimately show ?thesis using rec total ex by blast
    next
      assume v: "(\<forall>i\<in>{1..<k'}. (r, c - int i) \<in> set (cells shape)
                           \<and> (r + 1, c - int i) \<notin> set (cells shape)) \<and>
          path = hstrip r c k' \<and> (ns, h) = (filter (\<lambda>x. 0 < x) (hshape shape r k'), 0)"
      then have run: "\<forall>i\<in>{1..<k'}. (r, c - int i) \<in> set (cells shape)
                           \<and> (r + 1, c - int i) \<notin> set (cells shape)" by blast
      from v have p: "path = hstrip r c k'"
        and ns: "ns = filter (\<lambda>x. 0 < x) (hshape shape r k')" and h: "h = 0"
        by simp_all
      note res = hstrip_residual [OF y cor k(2) run]
      have total: "sum_list ns = sum_list shape - k"
        using residual_total [OF young_nonneg [OF y] res(3) distinct_hstrip res(1) res(2)] ns k
        by (simp add: length_hstrip)
      have rec: "(ns, h) \<in> set (record_hook shape k path)"
        using record_hook_hstrip [OF y cor k(2) run] ns h p k by simp
      have ex: "\<exists>shape'. length shape' = length shape \<and> sorted_wrt (\<ge>) shape' \<and>
          (\<forall>x\<in>set shape'. 0 \<le> x) \<and>
          set (cells shape) - set path = set (cells shape') \<and>
          ns = filter (\<lambda>x. 0 < x) shape'"
        using res(2) res(3) res(4) ns p length_hshape [of shape r k'] by blast
      have "young ns" using ns young_filter_pos [OF res(4)] by simp
      moreover have "distinct path" "set path \<subseteq> set (cells shape)" "int (length path) = k"
        "h = int (card (fst ` set path)) - 1"
        using p res(1) k h by (simp_all add: distinct_hstrip length_hstrip rows_hstrip)
      ultimately show ?thesis using rec total ex by blast
    qed
  qed
  have "\<forall>(path, ns, h) \<in> set (rim_hooks_trace shape k).
       (ns, h) \<in> set (record_hook shape k path) \<and>
       distinct path \<and> set path \<subseteq> set (cells shape) \<and> int (length path) = k \<and>
       young ns \<and> sum_list ns = sum_list shape - k \<and>
       (\<exists>shape'. length shape' = length shape \<and> sorted_wrt (\<ge>) shape' \<and>
          (\<forall>x\<in>set shape'. 0 \<le> x) \<and>
          set (cells shape) - set path = set (cells shape') \<and>
          ns = filter (\<lambda>x. 0 < x) shape') \<and>
       h = int (card (fst ` set path)) - 1"
    using each by blast
  then show ?thesis using rim_hooks_trace_hooks [of shape k] by blast
qed

lemma trace_22: "rim_hooks_trace [2, 2] 2 = [([(1, 1), (0, 1)], [1, 1], 1), ([(1, 1), (1, 0)], [2], 0)]"
  by code_simp

theorem rim_hooks_sound_witness:
  "map snd (rim_hooks_trace [2, 2] 2) = rim_hooks [2, 2] 2 \<and>
   ([(1, 1), (0, 1)], [1, 1], 1) \<in> set (rim_hooks_trace [2, 2] 2) \<and>
   ([1, 1], 1) \<in> set (record_hook [2, 2] 2 [(1, 1), (0, 1)]) \<and>
   distinct ([(1, 1), (0, 1)] :: cell list) \<and> set [(1, 1), (0, 1)] \<subseteq> set (cells [2, 2]) \<and>
   int (length ([(1, 1), (0, 1)] :: cell list)) = 2 \<and>
   young [1, 1] \<and> sum_list [1, 1 :: int] = sum_list [2, 2] - 2 \<and>
   (\<exists>shape'. length shape' = length [2, 2 :: int] \<and> sorted_wrt (\<ge>) shape' \<and>
      (\<forall>x\<in>set shape'. 0 \<le> x) \<and>
      set (cells [2, 2]) - set [(1, 1), (0, 1)] = set (cells shape') \<and>
      [1, 1] = filter (\<lambda>x. 0 < x) shape') \<and>
   1 = int (card (fst ` set ([(1, 1), (0, 1)] :: cell list))) - 1"
proof -
  have mem: "([(1, 1), (0, 1)], [1, 1], 1) \<in> set (rim_hooks_trace [2, 2] 2)"
    by (simp add: trace_22)
  from rim_hooks_sound [OF young_22, of 2] have
    "map snd (rim_hooks_trace [2, 2] 2) = rim_hooks [2, 2] 2"
    and all: "\<forall>(path, ns, h) \<in> set (rim_hooks_trace [2, 2] 2).
       (ns, h) \<in> set (record_hook [2, 2] 2 path) \<and>
       distinct path \<and> set path \<subseteq> set (cells [2, 2]) \<and> int (length path) = 2 \<and>
       young ns \<and> sum_list ns = sum_list [2, 2] - 2 \<and>
       (\<exists>shape'. length shape' = length [2, 2 :: int] \<and> sorted_wrt (\<ge>) shape' \<and>
          (\<forall>x\<in>set shape'. 0 \<le> x) \<and>
          set (cells [2, 2]) - set path = set (cells shape') \<and>
          ns = filter (\<lambda>x. 0 < x) shape') \<and>
       h = int (card (fst ` set path)) - 1"
    by simp_all
  from bspec [OF all mem] this(1) mem show ?thesis by simp
qed

section \<open>How many hooks are returned\<close>

lemma corner_rows_inj: "inj_on fst (set (corners shape))"
proof (rule inj_onI)
  fix x y assume x: "x \<in> set (corners shape)" and y: "y \<in> set (corners shape)"
    and eq: "fst x = fst y"
  obtain r c where xr: "x = (r, c)" by (cases x)
  obtain r' c' where yr: "y = (r', c')" by (cases y)
  from corner_row [of r c shape] corner_row [of r' c' shape] x y eq xr yr
  show "x = y" by simp
qed

lemma distinct_corner_rows: "distinct (map fst (corners shape))"
  by (simp add: distinct_map distinct_corners corner_rows_inj)

lemma length_dfs_corner_flag:
  assumes y: "young shape" and corner: "(r, c) \<in> set (corners shape)" and k: "2 \<le> k"
  shows "length (dfs shape (int k) [(r, c)] {(r, c)}) \<le>
           (if row_above_same shape (r, c) then 1 else 0) + 1"
proof -
  from k have one: "1 \<in> {1..<k}" by simp
  have h: "length (if \<forall>i\<in>{1..<k}. (r, c - int i) \<in> set (cells shape)
                           \<and> (r + 1, c - int i) \<notin> set (cells shape)
      then record_hook shape (int k) (hstrip r c k) else []) \<le> 1"
    using length_record_hook [of shape "int k" "hstrip r c k"] by simp
  have v: "length (if \<forall>i\<in>{1..<k}. (r - int i, c) \<in> set (cells shape)
                           \<and> (r - int i, c + 1) \<notin> set (cells shape)
      then record_hook shape (int k) (vstrip r c k) else []) \<le>
        (if row_above_same shape (r, c) then 1 else 0)"
  proof (cases "\<forall>i\<in>{1..<k}. (r - int i, c) \<in> set (cells shape)
                           \<and> (r - int i, c + 1) \<notin> set (cells shape)")
    case True
    with one have "(r - int 1, c) \<in> set (cells shape) \<and> (r - int 1, c + 1) \<notin> set (cells shape)"
      by blast
    then have "row_above_same shape (r, c)" by (simp add: row_above_same_def)
    then show ?thesis
      unfolding if_P [OF True] using length_record_hook [of shape "int k" "vstrip r c k"] by simp
  next
    case False
    then show ?thesis unfolding if_not_P [OF False] by simp
  qed
  from v h show ?thesis unfolding dfs_corner [OF y corner k] length_append by linarith
qed

lemma length_concat_bound:
  assumes "\<forall>x\<in>set xs. length (f x) \<le> g x"
  shows "length (concat (map f xs)) \<le> sum_list (map g xs)"
  using assms
proof (induction xs)
  case Nil
  then show ?case by simp
next
  case (Cons x xs)
  then have "length (f x) \<le> g x" "length (concat (map f xs)) \<le> sum_list (map g xs)" by simp_all
  then show ?case by simp
qed

lemma sum_list_flag:
  "sum_list (map (\<lambda>x. (if P x then 1 else 0) + (1::nat)) xs) = length (filter P xs) + length xs"
  by (induction xs) simp_all

lemma corner_rows_bound:
  "length (filter (row_above_same shape) (corners shape)) + length (corners shape) \<le> length shape"
proof -
  let ?A = "map (\<lambda>x. fst x - 1) (filter (row_above_same shape) (corners shape))"
  let ?B = "map fst (corners shape)"
  have injA: "inj_on (\<lambda>x. fst x - 1) (set (filter (row_above_same shape) (corners shape)))"
  proof (rule inj_onI)
    fix x y
    assume "x \<in> set (filter (row_above_same shape) (corners shape))"
      "y \<in> set (filter (row_above_same shape) (corners shape))" "fst x - 1 = fst y - 1"
    then have "x \<in> set (corners shape)" "y \<in> set (corners shape)" "fst x = fst y" by simp_all
    then show "x = y" using corner_rows_inj [of shape] by (auto dest: inj_onD)
  qed
  have "distinct (filter (row_above_same shape) (corners shape))"
    by (simp add: distinct_corners)
  with injA have dA: "distinct ?A" by (simp only: distinct_map simp_thms)
  have disj: "set ?A \<inter> set ?B = {}"
  proof (rule ccontr)
    assume "set ?A \<inter> set ?B \<noteq> {}"
    then obtain x y where x: "x \<in> set (corners shape)" "row_above_same shape x"
      and y: "y \<in> set (corners shape)" and eq: "fst x - 1 = fst y"
      by auto
    obtain r c where xr: "x = (r, c)" by (cases x)
    obtain r' c' where yr: "y = (r', c')" by (cases y)
    from eq xr yr have r': "r' = r - 1" by simp
    from x xr have cx: "(r, c) \<in> set (cells shape)" "0 \<le> c" by (auto simp: in_corners in_cells)
    from x(2) xr have up: "(r - 1, c) \<in> set (cells shape)" "(r - 1, c + 1) \<notin> set (cells shape)"
      by (simp_all add: row_above_same_def)
    with cx have "shape ! nat (r - 1) = c + 1" by (auto simp: in_cells)
    moreover from corner_row [of r' c' shape] y yr r' have "shape ! nat (r - 1) = c' + 1" by simp
    ultimately have "c' = c" by simp
    with y yr r' have "(r - 1 + 1, c) \<notin> set (cells shape)" by (simp add: in_corners)
    with cx show False by simp
  qed
  have sub: "set (?A @ ?B) \<subseteq> {0..<int (length shape)}"
  proof
    fix a assume "a \<in> set (?A @ ?B)"
    then consider (A) x where "x \<in> set (corners shape)" "row_above_same shape x" "a = fst x - 1"
      | (B) x where "x \<in> set (corners shape)" "a = fst x"
      by auto
    then show "a \<in> {0..<int (length shape)}"
    proof cases
      case A
      obtain r c where "x = (r, c)" by (cases x)
      with A show ?thesis by (auto simp: row_above_same_def in_cells)
    next
      case B
      obtain r c where "x = (r, c)" by (cases x)
      with B corner_row [of r c shape] show ?thesis by auto
    qed
  qed
  have "distinct (?A @ ?B)" using dA distinct_corner_rows [of shape] disj by simp
  then have "length (?A @ ?B) = card (set (?A @ ?B))" by (simp only: distinct_card)
  also have "\<dots> \<le> card {0..<int (length shape)}" by (rule card_mono [OF _ sub]) simp
  finally show ?thesis by simp
qed

text \<open>
  C4, as the code has it. For a Young diagram shape and a positive hook length,
  \<open>rim_hooks\<close> returns at most as many pairs as the diagram has rows, and for hook length
  1 exactly one pair for each outer corner: a diagram with several outer corners has
  several removable rim hooks of one length.
\<close>

theorem rim_hooks_at_most_rows:
  assumes "young shape" and "0 < k"
  shows "length (rim_hooks shape k) \<le> length shape \<and>
         (k = 1 \<longrightarrow> length (rim_hooks shape k) = length (corners shape))"
proof -
  define k' where "k' = nat k"
  with assms have k: "k = int k'" "1 \<le> k'" by simp_all
  note y = assms(1)
  have one: "length (rim_hooks shape k) = length (corners shape)" if "k = 1"
  proof -
    have "\<forall>corner\<in>set (corners shape). length (dfs shape 1 [corner] {corner}) = 1"
    proof
      fix corner assume c: "corner \<in> set (corners shape)"
      obtain r c' where "corner = (r, c')" by (cases corner)
      with c record_hook_corner [OF y, of r c']
      show "length (dfs shape 1 [corner] {corner}) = 1" by (simp add: dfs_done)
    qed
    from length_concat_eq [OF this] that show ?thesis by (simp add: rim_hooks_def)
  qed
  have le: "length (rim_hooks shape k) \<le> length shape"
  proof (cases "k = 1")
    case True
    from corner_rows_bound [of shape] one [OF True] show ?thesis by simp
  next
    case False
    with k have k2: "2 \<le> k'" by simp
    have "\<forall>corner\<in>set (corners shape). length (dfs shape k [corner] {corner}) \<le>
            (if row_above_same shape corner then 1 else 0) + 1"
    proof
      fix corner assume c: "corner \<in> set (corners shape)"
      obtain r c' where "corner = (r, c')" by (cases corner)
      with c length_dfs_corner_flag [OF y _ k2, of r c'] k(1)
      show "length (dfs shape k [corner] {corner}) \<le>
            (if row_above_same shape corner then 1 else 0) + 1" by simp
    qed
    from length_concat_bound [OF this]
    have "length (rim_hooks shape k) \<le>
       length (filter (row_above_same shape) (corners shape)) + length (corners shape)"
      by (simp only: rim_hooks_def sum_list_flag)
    with corner_rows_bound [of shape] show ?thesis by simp
  qed
  from le one show ?thesis by simp
qed

theorem rim_hooks_at_most_rows_witness:
  "length (rim_hooks [2, 2] 2) \<le> length [2, 2 :: int] \<and>
   length (rim_hooks [2, 1] 1) \<le> length [2, 1 :: int] \<and>
   length (rim_hooks [2, 1] 1) = length (corners [2, 1])"
proof -
  have "young [2, 1]" by (simp add: young_def)
  from rim_hooks_at_most_rows [OF this, of 1] rim_hooks_at_most_rows [OF young_22, of 2]
  show ?thesis by simp
qed

text \<open>
  C4 as stated fails: the diagram \<open>[2, 1]\<close> has two outer corners, and \<open>rim_hooks\<close>
  returns two hooks of length 1 for it.
\<close>

theorem two_hooks_of_length_one:
  "young [2, 1] \<and> rim_hooks [2, 1] 1 = [([1, 1], 0), ([2], 0)] \<and> \<not> length (rim_hooks [2, 1] 1) \<le> 1"
  by code_simp

section \<open>A removable rim hook that is not returned\<close>

text \<open>
  C1. In the diagram \<open>[2, 2]\<close> the three cells \<open>(1, 0), (1, 1), (0, 1)\<close> are border
  cells, form a connected strip, and leave the one-cell diagram behind, yet \<open>rim_hooks\<close>
  returns no hook of length 3: the search only runs straight from a corner and never finds
  a hook with a bend.
\<close>

theorem bent_hook_omitted:
  "young [2, 2] \<and> spec_removable_rim_hook [2, 2] [(1, 0), (1, 1), (0, 1)] \<and>
   length [(1, 0), (1, 1), (0, 1 :: int)] = 3 \<and> rim_hooks [2, 2] 3 = []"
  by code_simp

section \<open>The one-row and the one-column partition\<close>

lemma singleton_list:
  assumes "distinct xs" "set xs = {a}"
  shows "xs = [a]"
proof (cases xs)
  case Nil
  with assms show ?thesis by simp
next
  case (Cons x ys)
  with assms have "x = a" "set ys \<subseteq> {a}" "a \<notin> set ys" by auto
  then have "ys = []" by (cases ys) auto
  with \<open>x = a\<close> Cons show ?thesis by simp
qed

lemma in_cells_row: "(a, b) \<in> set (cells [n]) \<longleftrightarrow> a = 0 \<and> 0 \<le> b \<and> b < n"
  by (auto simp: in_cells)

lemma in_cells_col: "(a, b) \<in> set (cells (replicate n 1)) \<longleftrightarrow> 0 \<le> a \<and> a < int n \<and> b = 0"
  by (auto simp: in_cells)

lemma corners_row: "1 \<le> n \<Longrightarrow> corners [n] = [(0, n - 1)]"
proof (rule singleton_list [OF distinct_corners])
  assume n: "1 \<le> n"
  show "set (corners [n]) = {(0, n - 1)}"
  proof (rule set_eqI)
    fix x :: cell
    obtain a b where ab: "x = (a, b)" by (cases x)
    from n show "x \<in> set (corners [n]) \<longleftrightarrow> x \<in> {(0, n - 1)}"
      unfolding ab in_corners in_cells_row by auto
  qed
qed

lemma corners_col: "1 \<le> n \<Longrightarrow> corners (replicate n 1) = [(int n - 1, 0)]"
proof (rule singleton_list [OF distinct_corners])
  assume n: "1 \<le> n"
  show "set (corners (replicate n 1)) = {(int n - 1, 0)}"
  proof (rule set_eqI)
    fix x :: cell
    obtain a b where ab: "x = (a, b)" by (cases x)
    from n show "x \<in> set (corners (replicate n 1)) \<longleftrightarrow> x \<in> {(int n - 1, 0)}"
      unfolding ab in_corners in_cells_col by auto
  qed
qed

lemma young_row: "1 \<le> n \<Longrightarrow> young [n]"
  by (simp add: young_def)

lemma young_col: "young (replicate n 1)"
  by (simp add: young_def sorted_wrt_iff_nth_less list_all_iff)

lemma rim_hooks_row:
  assumes "1 \<le> k" "int k \<le> n"
  shows "rim_hooks [n] (int k) = [(filter (\<lambda>x. 0 < x) [n - int k], 0)]"
proof -
  from assms have n: "1 \<le> n" by simp
  note y = young_row [OF n]
  have corner: "(0, n - 1) \<in> set (corners [n])" by (simp add: corners_row [OF n])
  have hrun: "\<forall>i\<in>{1..<k}. (0, n - 1 - int i) \<in> set (cells [n])
                           \<and> (0 + 1, n - 1 - int i) \<notin> set (cells [n])"
    using assms by (auto simp: in_cells_row)
  have hs: "hshape [n] 0 k = [n - int k]" by (simp add: hshape_def)
  have "dfs [n] (int k) [(0, n - 1)] {(0, n - 1)} = [(filter (\<lambda>x. 0 < x) [n - int k], 0)]"
  proof (cases "k = 1")
    case True
    with record_hook_corner [OF y corner] hs show ?thesis by (simp add: dfs_done)
  next
    case False
    with assms have k2: "2 \<le> k" by simp
    then have "1 \<in> {1..<k}" by simp
    moreover have "(0 - int 1, n - 1) \<notin> set (cells [n])" by (simp add: in_cells_row)
    ultimately have nov: "\<not> (\<forall>i\<in>{1..<k}. (0 - int i, n - 1) \<in> set (cells [n])
                           \<and> (0 - int i, n - 1 + 1) \<notin> set (cells [n]))"
      by blast
    have V: "(if \<forall>i\<in>{1..<k}. (0 - int i, n - 1) \<in> set (cells [n])
                           \<and> (0 - int i, n - 1 + 1) \<notin> set (cells [n])
      then record_hook [n] (int k) (vstrip 0 (n - 1) k) else []) = []"
      using nov by (simp only: if_False)
    have H: "(if \<forall>i\<in>{1..<k}. (0, n - 1 - int i) \<in> set (cells [n])
                           \<and> (0 + 1, n - 1 - int i) \<notin> set (cells [n])
      then record_hook [n] (int k) (hstrip 0 (n - 1) k) else []) =
        [(filter (\<lambda>x. 0 < x) [n - int k], 0)]"
      unfolding if_P [OF hrun] using record_hook_hstrip [OF y corner assms(1) hrun] hs by simp
    show ?thesis
      unfolding dfs_corner [OF y corner k2] V H by simp
  qed
  then show ?thesis by (simp add: rim_hooks_def corners_row [OF n])
qed

lemma sum_list_pos_nonneg:
  fixes cs :: "int list"
  shows "\<forall>c\<in>set cs. 0 < c \<Longrightarrow> 0 \<le> sum_list cs"
  by (induction cs) auto

lemma sum_list_pos_zero:
  fixes cs :: "int list"
  shows "\<forall>c\<in>set cs. 0 < c \<Longrightarrow> sum_list cs = 0 \<Longrightarrow> cs = []"
proof (cases cs)
  case Nil
  then show ?thesis by simp
next
  case (Cons c cs')
  assume a: "\<forall>c\<in>set cs. 0 < c" "sum_list cs = 0"
  with Cons have "0 < c" "\<forall>c\<in>set cs'. 0 < c" by simp_all
  with sum_list_pos_nonneg [of cs'] a Cons show ?thesis by simp
qed

lemma mn_row: "\<forall>c\<in>set cs. 0 < c \<Longrightarrow> sum_list cs = n \<Longrightarrow> mn [n] cs = 1"
proof (induction cs arbitrary: n)
  case Nil
  then show ?case by simp
next
  case (Cons c cs)
  then have c: "0 < c" and pos: "\<forall>c\<in>set cs. 0 < c" and rest: "sum_list cs = n - c" by auto
  define k where "k = nat c"
  with c sum_list_pos_nonneg [OF pos] rest have k: "1 \<le> k" "int k \<le> n" "c = int k" by simp_all
  have hooks: "rim_hooks [n] c = [(filter (\<lambda>x. 0 < x) [n - c], 0)]"
    using rim_hooks_row [OF k(1) k(2)] k(3) by simp
  show ?case
  proof (cases "n - c = 0")
    case True
    with sum_list_pos_zero [OF pos] rest have "cs = []" by simp
    with True hooks show ?thesis by simp
  next
    case False
    with k have "0 < n - c" by simp
    with hooks Cons.IH [OF pos rest] show ?thesis by simp
  qed
qed

lemma backtrack_row:
  assumes "\<forall>c\<in>set cs. 0 < c" "idx \<le> length cs" "sum_list (drop idx cs) = m"
  shows "backtrack cs 1 idx [m] = 1"
  using assms
proof (induction "length cs - idx" arbitrary: idx m)
  case 0
  then have "idx = length cs" by simp
  with 0 show ?case by (subst backtrack.simps) simp
next
  case (Suc d)
  then have idx: "idx < length cs" by simp
  then have split: "drop idx cs = cs ! idx # drop (Suc idx) cs"
    by (simp add: Cons_nth_drop_Suc)
  have "\<forall>c\<in>set (drop (Suc idx) cs). 0 < c"
    using Suc.prems(1) by (meson in_set_dropD)
  from sum_list_pos_nonneg [OF this] split Suc.prems(3)
  have le: "cs ! idx \<le> m" and rest: "sum_list (drop (Suc idx) cs) = m - cs ! idx" by simp_all
  have "d = length cs - Suc idx" using Suc.hyps(2) by simp
  from Suc.hyps(1) [OF this Suc.prems(1) _ rest] idx
  have "backtrack cs 1 (Suc idx) [m - cs ! idx] = 1" by simp
  with idx le show ?case by (subst backtrack.simps) simp
qed

text \<open>
  C6. For the one-row partition \<open>[n]\<close> and every list of (positive) cycle lengths that
  sums to \<open>n\<close>, \<open>character_M\<close> returns 1 and \<open>character_S\<close> returns 1.
\<close>

theorem single_row_characters:
  assumes "\<forall>c\<in>set cycle_lengths. 0 < c" and "sum_list cycle_lengths = n"
  shows "character_M [n] cycle_lengths = 1 \<and> character_S [n] cycle_lengths = 1"
  using backtrack_row [OF assms(1), of 0 n] mn_row [OF assms] assms(2)
  by (simp add: character_M_def character_S_def)

theorem single_row_characters_witness:
  "character_M [4] [1, 3] = 1 \<and> character_S [4] [1, 3] = 1"
  using single_row_characters [of "[1, 3]" 4] by simp

lemma length_le_sum_list:
  fixes cs :: "int list"
  shows "\<forall>c\<in>set cs. 0 < c \<Longrightarrow> int (length cs) \<le> sum_list cs"
  by (induction cs) auto

lemma sum_list_replicate_one: "sum_list (replicate n (1::int)) = int n"
  by (induction n) simp_all

lemma col_residual_shape:
  assumes k: "1 \<le> k" "k \<le> n"
  shows "filter (\<lambda>x. 0 < x) (vshape (replicate n 1) (int n - 1) k) = replicate (n - k) 1"
proof -
  let ?shape = "replicate n (1::int)"
  let ?ns = "filter (\<lambda>x. 0 < x) (vshape ?shape (int n - 1) k)"
  from k have n: "1 \<le> n" by simp
  have corner: "(int n - 1, 0) \<in> set (corners ?shape)" by (simp add: corners_col [OF n])
  have run: "\<forall>i\<in>{1..<k}. (int n - 1 - int i, 0) \<in> set (cells ?shape)
                           \<and> (int n - 1 - int i, 0 + 1) \<notin> set (cells ?shape)"
    using k by (auto simp: in_cells_col)
  note res = vstrip_residual [OF young_col corner run]
  have "sum_list ?ns = sum_list ?shape - int (length (vstrip (int n - 1) 0 k))"
    by (rule residual_total [OF young_nonneg [OF young_col] res(3) distinct_vstrip res(1) res(2)])
  then have total: "sum_list ?ns = int n - int k"
    by (simp add: sum_list_replicate_one length_vstrip)
  have ones: "\<forall>x\<in>set ?ns. x = 1"
  proof
    fix x assume "x \<in> set ?ns"
    then have x: "x \<in> set (vshape ?shape (int n - 1) k)" "0 < x" by simp_all
    then obtain j where "j < n" "x = vshape ?shape (int n - 1) k ! j"
      by (auto simp: in_set_conv_nth length_vshape)
    with x(2) show "x = 1" by (simp add: vshape_nth split: if_splits)
  qed
  then have rep: "?ns = replicate (length ?ns) 1"
    by (simp only: replicate_length_same)
  then have "sum_list ?ns = int (length ?ns)"
    using sum_list_replicate_one [of "length ?ns"] by simp
  with total k have "length ?ns = n - k" by simp
  with rep show ?thesis by simp
qed

lemma rim_hooks_col:
  assumes k: "1 \<le> k" "k \<le> n"
  shows "rim_hooks (replicate n 1) (int k) = [(replicate (n - k) 1, int k - 1)]"
proof -
  let ?shape = "replicate n (1::int)"
  from k have n: "1 \<le> n" by simp
  note y = young_col [of n]
  have corner: "(int n - 1, 0) \<in> set (corners ?shape)" by (simp add: corners_col [OF n])
  have vrun: "\<forall>i\<in>{1..<k}. (int n - 1 - int i, 0) \<in> set (cells ?shape)
                           \<and> (int n - 1 - int i, 0 + 1) \<notin> set (cells ?shape)"
    using k by (auto simp: in_cells_col)
  have rec: "record_hook ?shape (int k) (vstrip (int n - 1) 0 k) =
      [(replicate (n - k) 1, int k - 1)]"
    using record_hook_vstrip [OF y corner vrun] col_residual_shape [OF k] by simp
  have "dfs ?shape (int k) [(int n - 1, 0)] {(int n - 1, 0)} = [(replicate (n - k) 1, int k - 1)]"
  proof (cases "k = 1")
    case True
    with rec show ?thesis by (simp add: dfs_done strip_one)
  next
    case False
    with k have k2: "2 \<le> k" by simp
    then have "1 \<in> {1..<k}" by simp
    moreover have "(int n - 1, 0 - int 1) \<notin> set (cells ?shape)" by (simp add: in_cells_col)
    ultimately have noh: "\<not> (\<forall>i\<in>{1..<k}. (int n - 1, 0 - int i) \<in> set (cells ?shape)
                           \<and> (int n - 1 + 1, 0 - int i) \<notin> set (cells ?shape))"
      by blast
    have H: "(if \<forall>i\<in>{1..<k}. (int n - 1, 0 - int i) \<in> set (cells ?shape)
                           \<and> (int n - 1 + 1, 0 - int i) \<notin> set (cells ?shape)
      then record_hook ?shape (int k) (hstrip (int n - 1) 0 k) else []) = []"
      using noh by (simp only: if_False)
    have V: "(if \<forall>i\<in>{1..<k}. (int n - 1 - int i, 0) \<in> set (cells ?shape)
                           \<and> (int n - 1 - int i, 0 + 1) \<notin> set (cells ?shape)
      then record_hook ?shape (int k) (vstrip (int n - 1) 0 k) else []) =
        [(replicate (n - k) 1, int k - 1)]"
      unfolding if_P [OF vrun] by (rule rec)
    show ?thesis
      unfolding dfs_corner [OF y corner k2] V H by simp
  qed
  then show ?thesis by (simp add: rim_hooks_def corners_col [OF n])
qed

lemma mn_col:
  "\<forall>c\<in>set cs. 0 < c \<Longrightarrow> sum_list cs = int n \<Longrightarrow>
   mn (replicate n 1) cs = (- 1) ^ (n - length cs)"
proof (induction cs arbitrary: n)
  case Nil
  then show ?case by simp
next
  case (Cons c cs)
  then have c: "0 < c" and pos: "\<forall>c\<in>set cs. 0 < c" and sum: "c + sum_list cs = int n" by auto
  define k where "k = nat c"
  with c sum sum_list_pos_nonneg [OF pos] have k: "1 \<le> k" "k \<le> n" "c = int k" by simp_all
  from sum k have rest: "sum_list cs = int (n - k)" by simp
  from length_le_sum_list [OF pos] rest have len: "length cs \<le> n - k" by simp
  have hooks: "rim_hooks (replicate n 1) c = [(replicate (n - k) 1, int k - 1)]"
    using rim_hooks_col [OF k(1) k(2)] k(3) by simp
  have "nat (int k - 1) = k - 1" by simp
  with hooks Cons.IH [OF pos rest]
  have "mn (replicate n 1) (c # cs) = (- 1) ^ (k - 1) * (- 1) ^ (n - k - length cs)"
    by simp
  also have "\<dots> = (- 1) ^ ((k - 1) + (n - k - length cs))" by (simp add: power_add)
  also have "(k - 1) + (n - k - length cs) = n - length (c # cs)" using k len by simp
  finally show ?case .
qed

text \<open>
  C7. For the one-column partition of \<open>n\<close> rows of length 1 and every list of
  (positive) cycle lengths that sums to \<open>n\<close>, with \<open>k\<close> entries, \<open>character_S\<close> returns
  \<open>(-1) ^ (n - k)\<close>, the sign of a permutation of that cycle type.
\<close>

theorem column_character_is_sign:
  assumes "\<forall>c\<in>set cycle_lengths. 0 < c" and "sum_list cycle_lengths = int n"
  shows "character_S (replicate n 1) cycle_lengths = (- 1) ^ (n - length cycle_lengths)"
  using mn_col [OF assms] by (simp add: character_S_def)

theorem column_character_is_sign_witness:
  "character_S [1, 1, 1] [1, 2] = - 1"
  using column_character_is_sign [of "[1, 2]" 3] by (simp add: numeral_3_eq_3)

section \<open>The order of the cycle lengths in \<^verbatim>\<open>character_M\<close>\<close>

lemma backtrack_place:
  "idx \<le> length cycle_lengths \<Longrightarrow>
   backtrack cycle_lengths rows idx remaining = place rows remaining (drop idx cycle_lengths)"
proof (induction "length cycle_lengths - idx" arbitrary: idx remaining)
  case 0
  then have "idx = length cycle_lengths" by simp
  then show ?case by (subst backtrack.simps) simp
next
  case (Suc d)
  then have idx: "idx < length cycle_lengths" by simp
  then have split: "drop idx cycle_lengths = cycle_lengths ! idx # drop (Suc idx) cycle_lengths"
    by (simp add: Cons_nth_drop_Suc)
  have "d = length cycle_lengths - Suc idx" using Suc.hyps(2) by simp
  from Suc.hyps(1) [OF this] idx
  have IH: "backtrack cycle_lengths rows (Suc idx) rem' =
      place rows rem' (drop (Suc idx) cycle_lengths)" for rem'
    by simp
  from idx show ?case
    by (subst backtrack.simps) (simp add: split IH cong: if_cong)
qed

lemma character_M_place: "character_M partition' cycle_lengths =
   place (length partition') partition' cycle_lengths"
  by (simp add: character_M_def backtrack_place)

lemma place_sum:
  "place rows remaining (c # cs) =
     (\<Sum>i<rows. if c \<le> remaining ! i
        then place rows (remaining[i := remaining ! i - c]) cs else 0)"
  by (simp add: interv_sum_list_conv_sum_set_nat atLeast0LessThan)

lemma place_two:
  "place rows remaining (a # b # cs) =
     (\<Sum>i<rows. \<Sum>j<rows.
        if a \<le> remaining ! i \<and> b \<le> remaining[i := remaining ! i - a] ! j
        then place rows (remaining[i := remaining ! i - a,
               j := remaining[i := remaining ! i - a] ! j - b]) cs
        else 0)"
proof -
  have inner: "(if a \<le> remaining ! i
        then place rows (remaining[i := remaining ! i - a]) (b # cs) else 0) =
     (\<Sum>j<rows.
        if a \<le> remaining ! i \<and> b \<le> remaining[i := remaining ! i - a] ! j
        then place rows (remaining[i := remaining ! i - a,
               j := remaining[i := remaining ! i - a] ! j - b]) cs
        else 0)" for i
  proof (cases "a \<le> remaining ! i")
    case True
    then show ?thesis by (simp only: place_sum if_True simp_thms)
  next
    case False
    then show ?thesis by (simp only: if_False simp_thms sum.neutral_const)
  qed
  show ?thesis
    unfolding place_sum [of rows remaining a "b # cs"] by (simp only: inner)
qed

lemma place_swap:
  assumes a: "0 \<le> a" and b: "0 \<le> b" and rows: "rows \<le> length remaining"
  shows "place rows remaining (a # b # cs) = place rows remaining (b # a # cs)"
proof -
  let ?f = "\<lambda>i j. if a \<le> remaining ! i \<and> b \<le> remaining[i := remaining ! i - a] ! j
      then place rows (remaining[i := remaining ! i - a,
              j := remaining[i := remaining ! i - a] ! j - b]) cs else 0"
  let ?g = "\<lambda>j i. if b \<le> remaining ! j \<and> a \<le> remaining[j := remaining ! j - b] ! i
      then place rows (remaining[j := remaining ! j - b,
              i := remaining[j := remaining ! j - b] ! i - a]) cs else 0"
  have eq: "?f i j = ?g j i" if "i \<in> {..<rows}" "j \<in> {..<rows}" for i j
  proof (cases "i = j")
    case True
    from that rows have i: "i < length remaining" by simp
    have cond: "(a \<le> remaining ! i \<and> b \<le> remaining ! i - a) \<longleftrightarrow>
                (b \<le> remaining ! i \<and> a \<le> remaining ! i - b)"
      using a b by linarith
    have val: "remaining ! i - b - a = remaining ! i - a - b" by simp
    have fi: "?f i i = (if a \<le> remaining ! i \<and> b \<le> remaining ! i - a
        then place rows (remaining[i := remaining ! i - a - b]) cs else 0)"
      using i by (simp del: place.simps)
    have gi: "?g i i = (if b \<le> remaining ! i \<and> a \<le> remaining ! i - b
        then place rows (remaining[i := remaining ! i - a - b]) cs else 0)"
      using i by (simp del: place.simps add: val)
    show ?thesis
      unfolding True [symmetric] fi gi by (simp only: cond)
  next
    case False
    have "remaining[i := remaining ! i - a, j := remaining ! j - b] =
          remaining[j := remaining ! j - b, i := remaining ! i - a]"
      by (rule list_update_swap [OF False])
    with False show ?thesis by (auto simp del: place.simps)
  qed
  have "place rows remaining (a # b # cs) = (\<Sum>i<rows. \<Sum>j<rows. ?f i j)"
    by (rule place_two)
  also have "\<dots> = (\<Sum>i<rows. \<Sum>j<rows. ?g j i)"
    by (intro sum.cong refl eq)
  also have "\<dots> = (\<Sum>j<rows. \<Sum>i<rows. ?g j i)"
    by (rule sum.swap)
  also have "\<dots> = place rows remaining (b # a # cs)"
    by (rule place_two [symmetric])
  finally show ?thesis .
qed

lemma place_move_front:
  assumes "0 \<le> x" "\<forall>y\<in>set ys. 0 \<le> y" "rows \<le> length remaining"
  shows "place rows remaining (ys @ x # zs) = place rows remaining (x # ys @ zs)"
  using assms
proof (induction ys arbitrary: remaining)
  case Nil
  then show ?case by simp
next
  case (Cons y ys)
  then have y: "0 \<le> y" and ys: "\<forall>y\<in>set ys. 0 \<le> y" by simp_all
  have "place rows remaining ((y # ys) @ x # zs) =
        (\<Sum>i<rows. if y \<le> remaining ! i
           then place rows (remaining[i := remaining ! i - y]) (ys @ x # zs) else 0)"
    by (simp only: append_Cons place_sum)
  also have "\<dots> = (\<Sum>i<rows. if y \<le> remaining ! i
           then place rows (remaining[i := remaining ! i - y]) (x # ys @ zs) else 0)"
    using Cons.IH [OF Cons.prems(1) ys] Cons.prems(3) by (simp del: place.simps cong: if_cong)
  also have "\<dots> = place rows remaining (y # x # ys @ zs)"
    by (simp only: place_sum)
  also have "\<dots> = place rows remaining (x # y # ys @ zs)"
    by (rule place_swap [OF y Cons.prems(1) Cons.prems(3)])
  finally show ?case by simp
qed

lemma place_mset:
  assumes "mset xs = mset ys" "\<forall>x\<in>set xs. 0 \<le> x" "rows \<le> length remaining"
  shows "place rows remaining xs = place rows remaining ys"
  using assms
proof (induction xs arbitrary: ys remaining)
  case Nil
  then show ?case by simp
next
  case (Cons x xs)
  from Cons.prems(1) have "x \<in> set ys" by (metis list.set_intros(1) set_mset_mset)
  then obtain ys1 ys2 where ys: "ys = ys1 @ x # ys2" by (auto dest: split_list)
  with Cons.prems(1) have m: "mset xs = mset (ys1 @ ys2)" by simp
  from Cons.prems(2) have x: "0 \<le> x" and xs: "\<forall>x\<in>set xs. 0 \<le> x" by simp_all
  from m xs have nn: "\<forall>y\<in>set ys1. 0 \<le> y"
    by (metis Un_iff set_append set_mset_mset)
  have "place rows remaining (x # xs) =
        (\<Sum>i<rows. if x \<le> remaining ! i
           then place rows (remaining[i := remaining ! i - x]) xs else 0)"
    by (simp only: place_sum)
  also have "\<dots> = (\<Sum>i<rows. if x \<le> remaining ! i
           then place rows (remaining[i := remaining ! i - x]) (ys1 @ ys2) else 0)"
    using Cons.IH [OF m xs] Cons.prems(3) by (simp del: place.simps cong: if_cong)
  also have "\<dots> = place rows remaining (x # ys1 @ ys2)"
    by (simp only: place_sum)
  also have "\<dots> = place rows remaining (ys1 @ x # ys2)"
    by (rule place_move_front [OF x nn Cons.prems(3), symmetric])
  finally show ?case by (simp only: ys)
qed

text \<open>
  For nonnegative cycle lengths the value of \<open>character_M\<close>
  does not depend on their order.
\<close>

theorem character_M_order_invariant:
  assumes "mset cycle_lengths' = mset cycle_lengths" and "\<forall>c\<in>set cycle_lengths. 0 \<le> c"
  shows "character_M partition' cycle_lengths' = character_M partition' cycle_lengths"
proof -
  from assms have "\<forall>c\<in>set cycle_lengths'. 0 \<le> c" by (metis set_mset_mset)
  from place_mset [OF assms(1) this, of "length partition'" partition']
  show ?thesis by (simp add: character_M_place)
qed

theorem character_M_order_invariant_witness:
  "character_M [2, 1] [2, 1] = character_M [2, 1] [1, 2]"
  using character_M_order_invariant [of "[2, 1]" "[1, 2]" "[2, 1]"] by simp

text \<open>
  A negative entry, which no cycle type contains, makes the order matter.
\<close>

theorem character_M_negative_length_order:
  "character_M [1] [2, - 1] = 0 \<and> character_M [1] [- 1, 2] = 1"
  by code_simp

section \<open>Exactly which hooks are returned\<close>

lemma dfs_corner_straight:
  assumes y: "young shape" and corner: "(r, c) \<in> set (corners shape)" and k: "1 \<le> k"
  shows "x \<in> set (dfs shape (int k) [(r, c)] {(r, c)}) \<longleftrightarrow>
         ((\<forall>i\<in>{1..<k}. (r - int i, c) \<in> set (cells shape)
                           \<and> (r - int i, c + 1) \<notin> set (cells shape)) \<and>
          x = (filter (\<lambda>x. 0 < x) (vshape shape r k), int k - 1)) \<or>
         ((\<forall>i\<in>{1..<k}. (r, c - int i) \<in> set (cells shape)
                           \<and> (r + 1, c - int i) \<notin> set (cells shape)) \<and>
          x = (filter (\<lambda>x. 0 < x) (hshape shape r k), 0))"
    (is "?L \<longleftrightarrow> ?V \<or> ?H")
proof
  assume ?L
  then show "?V \<or> ?H" by (rule dfs_corner_cases [OF y corner k])
next
  assume vh: "?V \<or> ?H"
  show ?L
  proof (cases "k = 1")
    case True
    have "record_hook shape 1 [(r, c)] = [(filter (\<lambda>x. 0 < x) (vshape shape r 1), 0)]"
      using record_hook_vstrip [OF y corner, of 1] by (simp add: strip_one)
    moreover have "record_hook shape 1 [(r, c)] = [(filter (\<lambda>x. 0 < x) (hshape shape r 1), 0)]"
      by (rule record_hook_corner [OF y corner])
    ultimately show ?thesis using vh True by (auto simp: dfs_done)
  next
    case False
    with k have k2: "2 \<le> k" by simp
    from vh show ?thesis
    proof
      assume v: ?V
      then have run: "\<forall>i\<in>{1..<k}. (r - int i, c) \<in> set (cells shape)
                           \<and> (r - int i, c + 1) \<notin> set (cells shape)" by blast
      from v record_hook_vstrip [OF y corner run] show ?thesis
        unfolding dfs_corner [OF y corner k2] if_P [OF run] by simp
    next
      assume h: ?H
      then have run: "\<forall>i\<in>{1..<k}. (r, c - int i) \<in> set (cells shape)
                           \<and> (r + 1, c - int i) \<notin> set (cells shape)" by blast
      from h record_hook_hstrip [OF y corner k run] show ?thesis
        unfolding dfs_corner [OF y corner k2] if_P [OF run] by simp
    qed
  qed
qed

text \<open>
  What the search misses, pinned down: for a Young diagram shape and a hook
  length \<open>k \<ge> 1\<close>, the pairs that \<open>rim_hooks\<close> returns are exactly those of the straight
  strips of \<open>k\<close> border cells that start at an outer corner, straight up (height
  \<open>k - 1\<close>) or straight to the left (height 0). A removable hook with a bend is never
  among them.
\<close>

theorem rim_hooks_straight_only:
  assumes "young shape" and "1 \<le> k"
  shows "x \<in> set (rim_hooks shape (int k)) \<longleftrightarrow>
    (\<exists>r c. (r, c) \<in> set (corners shape) \<and>
       (((\<forall>i\<in>{1..<k}. (r - int i, c) \<in> set (cells shape)
                           \<and> (r - int i, c + 1) \<notin> set (cells shape)) \<and>
          x = (filter (\<lambda>x. 0 < x) (vshape shape r k), int k - 1)) \<or>
         ((\<forall>i\<in>{1..<k}. (r, c - int i) \<in> set (cells shape)
                           \<and> (r + 1, c - int i) \<notin> set (cells shape)) \<and>
          x = (filter (\<lambda>x. 0 < x) (hshape shape r k), 0))))"
proof -
  have "x \<in> set (rim_hooks shape (int k)) \<longleftrightarrow>
        (\<exists>r c. (r, c) \<in> set (corners shape) \<and> x \<in> set (dfs shape (int k) [(r, c)] {(r, c)}))"
    by (auto simp: rim_hooks_def)
  also have "\<dots> \<longleftrightarrow> (\<exists>r c. (r, c) \<in> set (corners shape) \<and>
       (((\<forall>i\<in>{1..<k}. (r - int i, c) \<in> set (cells shape)
                           \<and> (r - int i, c + 1) \<notin> set (cells shape)) \<and>
          x = (filter (\<lambda>x. 0 < x) (vshape shape r k), int k - 1)) \<or>
         ((\<forall>i\<in>{1..<k}. (r, c - int i) \<in> set (cells shape)
                           \<and> (r + 1, c - int i) \<notin> set (cells shape)) \<and>
          x = (filter (\<lambda>x. 0 < x) (hshape shape r k), 0))))"
    using dfs_corner_straight [OF assms(1) _ assms(2)] by blast
  finally show ?thesis .
qed

theorem rim_hooks_straight_only_witness:
  "([2], 0) \<in> set (rim_hooks [2, 2] (int 2)) \<longleftrightarrow>
    (\<exists>r c. (r, c) \<in> set (corners [2, 2]) \<and>
       (((\<forall>i\<in>{1..<2::nat}. (r - int i, c) \<in> set (cells [2, 2])
                           \<and> (r - int i, c + 1) \<notin> set (cells [2, 2])) \<and>
          ([2], 0) = (filter (\<lambda>x. 0 < x) (vshape [2, 2] r 2), int 2 - 1)) \<or>
         ((\<forall>i\<in>{1..<2::nat}. (r, c - int i) \<in> set (cells [2, 2])
                           \<and> (r + 1, c - int i) \<notin> set (cells [2, 2])) \<and>
          ([2], 0) = (filter (\<lambda>x. 0 < x) (hshape [2, 2] r 2), 0))))"
  using rim_hooks_straight_only [of "[2, 2]" 2 "([2], 0)"] young_22 by simp

end
